theory Spec2Isabelle
  imports Main "HOL-Library.Word"
begin

unbundle bit_operations_syntax

section \<open>rlzcommon.h: tokens, formats, exit codes\<close>

type_synonym byte = "8 word"
type_synonym u32 = "32 word"
type_synonym u64 = "64 word"

text \<open>
  \<^verbatim>\<open>struct RLZToken { uint64_t start_pos; int64_t length; }\<close>.
  Both fields are 64-bit words; the signed field is read with \<^const>\<open>sint\<close>.
\<close>

record RLZToken =
  start_pos :: u64
  length_tok :: u64

text \<open>\<^verbatim>\<open>end_sentinel = { ULLONG_MAX, -1LL }\<close>\<close>

definition end_sentinel :: RLZToken where
  "end_sentinel = \<lparr>start_pos = - 1, length_tok = - 1\<rparr>"

definition is_end_sentinel :: "RLZToken \<Rightarrow> bool" where
  "is_end_sentinel token \<longleftrightarrow>
     start_pos token = start_pos end_sentinel \<and> length_tok token = length_tok end_sentinel"

lemma is_end_sentinel_end_sentinel [simp]: "is_end_sentinel end_sentinel"
  by (simp add: is_end_sentinel_def)

definition FMT_32X2 :: int where "FMT_32X2 = 0x32783233"
definition FMT_64X2 :: int where "FMT_64X2 = 0x32783436"
definition FMT_ASCII :: int where "FMT_ASCII = 0x74786574"
definition FMT_VBYTE :: int where "FMT_VBYTE = 0x74796276"

definition EXIT_BUG :: int where "EXIT_BUG = 33"
definition EXIT_USER_ERROR :: int where "EXIT_USER_ERROR = 63"
definition EXIT_INVALID_INPUT :: int where "EXIT_INVALID_INPUT = 1"

text \<open>
  How a run can stop other than by returning: \<^verbatim>\<open>exit(status)\<close>, an exception of the
  standard library that nothing catches, and a read of \<^verbatim>\<open>data_array[i]\<close> outside the
  allocated array at an address where the process has no memory to read
  (\<^verbatim>\<open>FileReader::operator[]\<close> does no bounds check; the process is killed, and the
  index is recorded).
\<close>

datatype cpp_exception = invalid_argument | out_of_range

datatype failure =
    Exit int
  | Uncaught cpp_exception
  | Out_of_bounds_read int

section \<open>Byte order\<close>

text \<open>The \<open>n\<close> bytes of a word in little-endian order (the byte order of the machine).\<close>

definition le_bytes :: "nat \<Rightarrow> 'a::len word \<Rightarrow> byte list" where
  "le_bytes n w = map (\<lambda>i. ucast (drop_bit (8 * i) w)) [0..<n]"

text \<open>The word whose little-endian bytes are \<open>bs\<close>.\<close>

definition le_word :: "byte list \<Rightarrow> 'a::len word" where
  "le_word bs = foldr (\<lambda>b acc. ucast b OR push_bit 8 acc) bs 0"

section \<open>The input stream of the token reader\<close>

text \<open>
  A \<^verbatim>\<open>std::ifstream\<close> opened in binary mode: the bytes not yet read and the two state
  bits the code tests.
\<close>

record ifstream =
  content :: "byte list"
  eofbit :: bool
  failbit :: bool

definition ifs_open :: "byte list \<Rightarrow> ifstream" where
  "ifs_open bs = \<lparr>content = bs, eofbit = False, failbit = False\<rparr>"

definition ifs_good :: "ifstream \<Rightarrow> bool" where
  "ifs_good s \<longleftrightarrow> \<not> eofbit s \<and> \<not> failbit s"

text \<open>\<^verbatim>\<open>infile.get()\<close>: one byte, or end-of-file with both bits set.\<close>

definition ifs_get :: "ifstream \<Rightarrow> byte option \<times> ifstream" where
  "ifs_get s =
     (if \<not> ifs_good s then (None, s\<lparr>failbit := True\<rparr>)
      else case content s of
             [] \<Rightarrow> (None, s\<lparr>eofbit := True, failbit := True\<rparr>)
           | b # bs \<Rightarrow> (Some b, s\<lparr>content := bs\<rparr>))"

text \<open>\<^verbatim>\<open>infile.read(buf, n)\<close>: \<open>n\<close> bytes, or what is left with both bits set.\<close>

definition ifs_read :: "nat \<Rightarrow> ifstream \<Rightarrow> byte list \<times> ifstream" where
  "ifs_read n s =
     (if \<not> ifs_good s then ([], s\<lparr>failbit := True\<rparr>)
      else if n \<le> length (content s)
        then (take n (content s), s\<lparr>content := drop n (content s)\<rparr>)
        else (content s, s\<lparr>content := [], eofbit := True, failbit := True\<rparr>))"

text \<open>\<^verbatim>\<open>isspace\<close> in the C locale.\<close>

definition isspace :: "byte \<Rightarrow> bool" where
  "isspace b \<longleftrightarrow> b = 0x20 \<or> (0x09 \<le> b \<and> b \<le> 0x0D)"

text \<open>
  \<^verbatim>\<open>infile >> str\<close> for a \<^verbatim>\<open>std::string\<close> that is empty before the call: leading
  white space is skipped; reaching the end while skipping sets both bits and extracts
  nothing; otherwise the characters up to the next white space are extracted, and
  reaching the end of the file while extracting sets \<^verbatim>\<open>eofbit\<close> alone.
\<close>

definition ifs_extract :: "ifstream \<Rightarrow> byte list \<times> ifstream" where
  "ifs_extract s =
     (if \<not> ifs_good s then ([], s\<lparr>failbit := True\<rparr>)
      else let rest = dropWhile isspace (content s) in
        if rest = [] then ([], s\<lparr>content := [], eofbit := True, failbit := True\<rparr>)
        else let str = takeWhile (\<lambda>b. \<not> isspace b) rest;
                 rest' = dropWhile (\<lambda>b. \<not> isspace b) rest
             in if rest' = [] then (str, s\<lparr>content := [], eofbit := True\<rparr>)
                else (str, s\<lparr>content := rest'\<rparr>))"

section \<open>The standard library's number parsers\<close>

text \<open>
  \<^verbatim>\<open>std::stoul(str, nullptr, 0)\<close> and \<^verbatim>\<open>std::stol(str, nullptr, 0)\<close>, that is
  \<^verbatim>\<open>strtoul\<close> and \<^verbatim>\<open>strtol\<close> with automatic base: optional white space and sign, a
  prefix \<^verbatim>\<open>0x\<close> for base 16 or \<^verbatim>\<open>0\<close> for base 8, then the longest run of digits.
  No digit at all throws \<^verbatim>\<open>std::invalid_argument\<close>, a value out of range throws
  \<^verbatim>\<open>std::out_of_range\<close>.
\<close>

definition digit_value :: "byte \<Rightarrow> int" where
  "digit_value b =
     (if 0x30 \<le> b \<and> b \<le> 0x39 then uint b - 0x30
      else if 0x61 \<le> b \<and> b \<le> 0x7A then uint b - 0x61 + 10
      else if 0x41 \<le> b \<and> b \<le> 0x5A then uint b - 0x41 + 10
      else 36)"

fun digits_value :: "int \<Rightarrow> int \<Rightarrow> byte list \<Rightarrow> int" where
  "digits_value base acc [] = acc"
| "digits_value base acc (b # bs) =
     (if digit_value b < base then digits_value base (acc * base + digit_value b) bs else acc)"

text \<open>The magnitude after the sign; \<open>None\<close> when there is no digit to convert.\<close>

definition strto_unsigned :: "byte list \<Rightarrow> int option" where
  "strto_unsigned bs =
     (case bs of
        [] \<Rightarrow> None
      | b # bs' \<Rightarrow>
          if b = 0x30 then
            (case bs' of
               x # h # _ \<Rightarrow>
                 if (x = 0x78 \<or> x = 0x58) \<and> digit_value h < 16
                 then Some (digits_value 16 0 (tl bs'))
                 else Some (digits_value 8 0 bs')
             | _ \<Rightarrow> Some (digits_value 8 0 bs'))
          else if digit_value b < 10 then Some (digits_value 10 0 bs)
          else None)"

definition strto_signed :: "byte list \<Rightarrow> (bool \<times> int) option" where
  "strto_signed bs =
     (let bs1 = dropWhile isspace bs;
          neg = (bs1 \<noteq> [] \<and> hd bs1 = 0x2D);
          bs2 = (if bs1 \<noteq> [] \<and> (hd bs1 = 0x2D \<or> hd bs1 = 0x2B) then tl bs1 else bs1)
      in map_option (\<lambda>m. (neg, m)) (strto_unsigned bs2))"

definition stoul :: "byte list \<Rightarrow> failure + u64" where
  "stoul str =
     (case strto_signed str of
        None \<Rightarrow> Inl (Uncaught invalid_argument)
      | Some (neg, m) \<Rightarrow>
          if 2 ^ 64 \<le> m then Inl (Uncaught out_of_range)
          else Inr (if neg then - of_int m else of_int m))"

definition stol :: "byte list \<Rightarrow> failure + u64" where
  "stol str =
     (case strto_signed str of
        None \<Rightarrow> Inl (Uncaught invalid_argument)
      | Some (neg, m) \<Rightarrow>
          if (neg \<and> 2 ^ 63 < m) \<or> (\<not> neg \<and> 2 ^ 63 \<le> m) then Inl (Uncaught out_of_range)
          else Inr (if neg then - of_int m else of_int m))"

section \<open>rlzcommon.cpp: RLZInputReader\<close>

text \<open>
  Every reader returns the token together with the stream as it leaves it;
  \<^verbatim>\<open>next_token_ascii\<close> can also end in an uncaught exception of the number parsers.
\<close>

definition next_token_32x2 :: "ifstream \<Rightarrow> RLZToken \<times> ifstream" where
  "next_token_32x2 infile =
     (let (bytebuf, infile') = ifs_read 8 infile in
      if failbit infile' then (end_sentinel, infile')
      else (\<lparr>start_pos = ucast (le_word (take 4 bytebuf) :: u32),
             length_tok = ucast (le_word (drop 4 bytebuf) :: u32)\<rparr>, infile'))"

definition next_token_64x2 :: "ifstream \<Rightarrow> RLZToken \<times> ifstream" where
  "next_token_64x2 infile =
     (let (bytebuf, infile') = ifs_read 16 infile in
      if failbit infile' then (end_sentinel, infile')
      else (\<lparr>start_pos = le_word (take 8 bytebuf),
             length_tok = le_word (drop 8 bytebuf)\<rparr>, infile'))"

definition next_token_ascii :: "ifstream \<Rightarrow> failure + RLZToken \<times> ifstream" where
  "next_token_ascii infile =
     (let (position_s, infile1) = ifs_extract infile in
      if eofbit infile1 then Inr (end_sentinel, infile1)
      else let (length_s, infile2) = ifs_extract infile1 in
        case stoul position_s of
          Inl e \<Rightarrow> Inl e
        | Inr position \<Rightarrow>
            (case stol length_s of
               Inl e \<Rightarrow> Inl e
             | Inr len \<Rightarrow> Inr (\<lparr>start_pos = position, length_tok = len\<rparr>, infile2)))"

text \<open>
  The two loops of \<^verbatim>\<open>next_token_vbyte\<close>. \<open>None\<close> is the early
  \<^verbatim>\<open>return end_sentinel\<close> on a failed \<^verbatim>\<open>get()\<close>; otherwise the accumulated number
  and the final \<^verbatim>\<open>shiftwidth\<close>. After a successful \<^verbatim>\<open>get()\<close> the byte is never
  negative, so \<^verbatim>\<open>c64\<close> is the byte zero-extended.
\<close>

function vbyte_pos_loop :: "nat \<Rightarrow> u64 \<Rightarrow> ifstream \<Rightarrow> (u64 \<times> nat) option \<times> ifstream" where
  "vbyte_pos_loop shiftwidth pos infile =
     (if shiftwidth < 64 then
        (case ifs_get infile of
           (None, infile') \<Rightarrow> (None, infile')
         | (Some c, infile') \<Rightarrow>
             let c64 = (ucast c :: u64) in
             if c64 AND 0x80 \<noteq> 0
             then vbyte_pos_loop (shiftwidth + 7) (pos + push_bit shiftwidth (c64 AND 0x7F)) infile'
             else (Some (pos + push_bit shiftwidth c64, shiftwidth), infile'))
      else (Some (pos, shiftwidth), infile))"
  by pat_completeness auto
termination
  by (relation "measure (\<lambda>(shiftwidth, pos, infile). 64 - shiftwidth)") auto

declare vbyte_pos_loop.simps [simp del]

function vbyte_len_loop :: "nat \<Rightarrow> u64 \<Rightarrow> ifstream \<Rightarrow> (u64 \<times> nat) option \<times> ifstream" where
  "vbyte_len_loop shiftwidth len infile =
     (if shiftwidth < 63 then
        (case ifs_get infile of
           (None, infile') \<Rightarrow> (None, infile')
         | (Some c, infile') \<Rightarrow>
             let c64 = (ucast c :: u64) in
             if c64 AND 0x80 \<noteq> 0
             then vbyte_len_loop (shiftwidth + 7) (len + push_bit shiftwidth (c64 AND 0x7F)) infile'
             else (Some (len + push_bit shiftwidth c64, shiftwidth), infile'))
      else (Some (len, shiftwidth), infile))"
  by pat_completeness auto
termination
  by (relation "measure (\<lambda>(shiftwidth, len, infile). 63 - shiftwidth)") auto

declare vbyte_len_loop.simps [simp del]

text \<open>The in-band error of \<^verbatim>\<open>next_token_vbyte\<close>: position 0 and length -1.\<close>

definition vbyte_error_token :: RLZToken where
  "vbyte_error_token = \<lparr>start_pos = 0, length_tok = - 1\<rparr>"

definition next_token_vbyte :: "ifstream \<Rightarrow> RLZToken \<times> ifstream" where
  "next_token_vbyte infile =
     (case vbyte_pos_loop 0 0 infile of
        (None, infile1) \<Rightarrow> (end_sentinel, infile1)
      | (Some (pos, shiftwidth), infile1) \<Rightarrow>
          if 64 < shiftwidth then (vbyte_error_token, infile1)
          else
            (case vbyte_len_loop 0 0 infile1 of
               (None, infile2) \<Rightarrow> (end_sentinel, infile2)
             | (Some (len, shiftwidth2), infile2) \<Rightarrow>
                 if 63 \<le> shiftwidth2 then (vbyte_error_token, infile2)
                 else (\<lparr>start_pos = pos, length_tok = len\<rparr>, infile2)))"

definition next_token :: "int \<Rightarrow> ifstream \<Rightarrow> failure + RLZToken \<times> ifstream" where
  "next_token mode infile =
     (if eofbit infile \<or> failbit infile then Inr (end_sentinel, infile)
      else if mode = FMT_32X2 then Inr (next_token_32x2 infile)
      else if mode = FMT_64X2 then Inr (next_token_64x2 infile)
      else if mode = FMT_ASCII then next_token_ascii infile
      else if mode = FMT_VBYTE then
        (let (tok, infile') = next_token_vbyte infile in
         if start_pos tok = 0 \<and> length_tok tok = - 1 then Inl (Exit EXIT_INVALID_INPUT)
         else Inr (tok, infile'))
      else Inl (Exit EXIT_BUG))"

definition keep_going :: "ifstream \<Rightarrow> bool" where
  "keep_going infile \<longleftrightarrow> \<not> (eofbit infile \<or> failbit infile)"

section \<open>rlzparse.cpp: output_token\<close>

text \<open>
  The two loops of the vbyte case. The first runs on the unsigned \<^verbatim>\<open>start_pos\<close>, the
  second on the signed \<^verbatim>\<open>length\<close> (signed comparisons, arithmetic shift).
\<close>

function vbyte_put_pos :: "u64 \<Rightarrow> byte list" where
  "vbyte_put_pos p =
     (if 0 < p then
        (if p \<le> 127 then ucast p else ucast (p AND 0x7F) OR 0x80) # vbyte_put_pos (drop_bit 7 p)
      else [])"
  by pat_completeness auto
termination
proof (relation "measure unat")
  fix p :: u64
  assume "0 < p"
  then have "0 < unat p" by (simp add: word_greater_zero_iff unat_gt_0)
  then have "unat p div 2 ^ 7 < unat p" by simp
  moreover have "unat (drop_bit 7 p) = drop_bit 7 (unat p)"
    by (rule unat_drop_bit_eq)
  moreover have "drop_bit 7 (unat p) = unat p div 2 ^ 7"
    by (rule drop_bit_eq_div)
  ultimately show "(drop_bit 7 p, p) \<in> measure unat"
    by simp
qed simp

declare vbyte_put_pos.simps [simp del]

function vbyte_put_len :: "u64 \<Rightarrow> byte list" where
  "vbyte_put_len l =
     (if 0 < sint l then
        (if sint l \<le> 127 then ucast l else ucast (l AND 0x7F) OR 0x80)
          # vbyte_put_len (signed_drop_bit 7 l)
      else [])"
  by pat_completeness auto
termination
proof (relation "measure (\<lambda>l. nat (sint l))")
  fix l :: u64
  assume "0 < sint l"
  then have "sint l div 2 ^ 7 < sint l" by simp
  then show "(signed_drop_bit 7 l, l) \<in> measure (\<lambda>l. nat (sint l))"
    using \<open>0 < sint l\<close> by (simp add: sint_signed_drop_bit_eq drop_bit_eq_div)
qed simp

declare vbyte_put_len.simps [simp del]

text \<open>
  What the vbyte case puts into \<^verbatim>\<open>bytebuf\<close> for each field: a single zero byte for
  the value 0, the bytes of the loop otherwise.
\<close>

definition vbyte_bytes_pos :: "u64 \<Rightarrow> byte list" where
  "vbyte_bytes_pos p = (if p = 0 then [0] else []) @ vbyte_put_pos p"

definition vbyte_bytes_len :: "u64 \<Rightarrow> byte list" where
  "vbyte_bytes_len l = (if l = 0 then [0] else []) @ vbyte_put_len l"

text \<open>
  \<^verbatim>\<open>std::to_string\<close> of a non-negative number: its decimal digits.
\<close>

function decimal :: "int \<Rightarrow> byte list" where
  "decimal n =
     (if n < 10 then [of_int (0x30 + n)]
      else decimal (n div 10) @ [of_int (0x30 + n mod 10)])"
  by pat_completeness auto
termination
  by (relation "measure nat") auto

declare decimal.simps [simp del]

definition to_string_u64 :: "u64 \<Rightarrow> byte list" where
  "to_string_u64 x = decimal (uint x)"

definition to_string_i64 :: "u64 \<Rightarrow> byte list" where
  "to_string_i64 x = (if sint x < 0 then 0x2D # decimal (- sint x) else decimal (sint x))"

text \<open>
  \<^verbatim>\<open>output_token\<close> returns the bytes it puts on the stream (\<^verbatim>\<open>*bytes_output\<close> grows
  by their number) and its return value. Its only message on \<^verbatim>\<open>cerr\<close> is the one of
  the default branch, which ends in \<^verbatim>\<open>exit(EXIT_BUG)\<close>.
\<close>

definition output_token :: "RLZToken \<Rightarrow> int \<Rightarrow> failure + byte list \<times> u64" where
  "output_token token output_mode =
     (if is_end_sentinel token then Inr ([], 0)
      else
        let ret = (if 0 < sint (length_tok token) then length_tok token else 1) in
        if output_mode = FMT_32X2 then
          Inr (le_bytes 4 (ucast (start_pos token) :: u32)
                 @ le_bytes 4 (ucast (length_tok token) :: u32), ret)
        else if output_mode = FMT_64X2 then
          Inr (le_bytes 8 (start_pos token) @ le_bytes 8 (length_tok token), ret)
        else if output_mode = FMT_ASCII then
          Inr (to_string_u64 (start_pos token) @ [0x20]
                 @ to_string_i64 (length_tok token) @ [0x0A], ret)
        else if output_mode = FMT_VBYTE then
          Inr (vbyte_bytes_pos (start_pos token) @ vbyte_bytes_len (length_tok token), ret)
        else Inl (Exit EXIT_BUG))"

section \<open>Integer types\<close>

text \<open>
  Values of the types \<^verbatim>\<open>int\<close>, \<^verbatim>\<open>long\<close> and \<^verbatim>\<open>long long\<close> are integers in the
  range of the type. \<open>to_int32\<close> and \<open>to_int64\<close> bring an integer into the range of a
  signed 32-bit and 64-bit type, as the machine does (two's complement): a
  \<^verbatim>\<open>long long\<close> passed for the \<^verbatim>\<open>int offset\<close> parameter of the searches, the sum of
  two \<^verbatim>\<open>long long\<close> values, and a suffix array entry (type \<^verbatim>\<open>S\<close>) converted to
  \<^verbatim>\<open>long long\<close>.
\<close>

definition to_int32 :: "int \<Rightarrow> int" where
  "to_int32 x = sint (word_of_int x :: 32 word)"

definition to_int64 :: "int \<Rightarrow> int" where
  "to_int64 x = sint (word_of_int x :: 64 word)"

definition to_long_long :: "'b::len word \<Rightarrow> int" where
  "to_long_long x = to_int64 (uint x)"

section \<open>rlzcommon.cpp: FileReader\<close>

text \<open>
  A \<^verbatim>\<open>FileReader<T>\<close> holds the symbols of a file in an array allocated with
  \<^verbatim>\<open>new T[file_size_symbols]\<close>. \<^verbatim>\<open>operator[]\<close> returns \<^verbatim>\<open>data_array[i]\<close>
  unchecked. At an index inside the array that is a symbol of the file. At an index
  outside the array the read returns what the memory of the process holds there, which
  is no part of any input file; \<open>outside\<close> is that memory, \<open>None\<close> at the indices where
  the process has no memory to read.
\<close>

record 's FileReader =
  data_array :: "'s list"
  outside :: "int \<Rightarrow> 's option"

definition new_FileReader :: "'s list \<Rightarrow> (int \<Rightarrow> 's option) \<Rightarrow> 's FileReader" where
  "new_FileReader file_symbols memory = \<lparr>data_array = file_symbols, outside = memory\<rparr>"

definition FileReader_size :: "'s FileReader \<Rightarrow> int" where
  "FileReader_size f = int (length (data_array f))"

definition FileReader_at :: "'s FileReader \<Rightarrow> int \<Rightarrow> failure + 's" where
  "FileReader_at f i =
     (if 0 \<le> i \<and> i < int (length (data_array f)) then Inr (data_array f ! nat i)
      else case outside f i of
             None \<Rightarrow> Inl (Out_of_bounds_read i)
           | Some symbol \<Rightarrow> Inr symbol)"

section \<open>rlzunparse.cpp: OutputWriter\<close>

text \<open>
  What the unparser has produced so far: the symbols put on \<^verbatim>\<open>outfile\<close> (each symbol
  stands for its \<^verbatim>\<open>sizeof(T)\<close> bytes), the tokens a truncation warning was printed
  for, and the three counters of \<^verbatim>\<open>unparse\<close>. The fields of a token are any 64-bit
  values, so the sums \<^verbatim>\<open>unparse\<close> and \<^verbatim>\<open>write_next\<close> make with them can leave the
  range of \<^verbatim>\<open>long long\<close>: they wrap around (\<open>to_int64\<close>).
\<close>

record 's OutputWriter =
  outfile :: "'s list"
  warnings :: "RLZToken list"
  toks_read :: int
  syms_written :: int
  output_pos :: int

text \<open>The \<^verbatim>\<open>for\<close> loop of \<^verbatim>\<open>write_next\<close>: the symbols \<open>dict[x]\<close>, \<open>x < token_end\<close>.\<close>

function write_loop :: "'s FileReader \<Rightarrow> int \<Rightarrow> int \<Rightarrow> failure + 's list" where
  "write_loop dict x token_end =
     (if x < token_end then
        (case FileReader_at dict x of
           Inl e \<Rightarrow> Inl e
         | Inr symbol \<Rightarrow>
             (case write_loop dict (x + 1) token_end of
                Inl e \<Rightarrow> Inl e
              | Inr out \<Rightarrow> Inr (symbol # out)))
      else Inr [])"
  by pat_completeness auto
termination
  by (relation "measure (\<lambda>(dict, x, token_end). nat (token_end - x))") auto

declare write_loop.simps [simp del]

text \<open>
  \<^verbatim>\<open>write_next(token, start, stop)\<close>: the symbols written, the warning if one is
  printed, and the return value.
\<close>

definition write_next ::
  "'a::len word FileReader \<Rightarrow> RLZToken \<Rightarrow> int \<Rightarrow> int
     \<Rightarrow> failure + 'a word list \<times> RLZToken list \<times> int" where
  "write_next dict token start stop =
     (let pos = sint (start_pos token);
          len = sint (length_tok token);
          dict_size = FileReader_size dict
      in if len = 0 then Inr ([ucast (start_pos token)], [], 1)
         else
           let stop' = (if stop \<le> 0 then len else stop);
               token_end = to_int64 (pos + stop');
               warn = (dict_size < token_end);
               token_end' = (if warn then dict_size else token_end)
           in case write_loop dict (to_int64 (pos + start)) token_end' of
                Inl e \<Rightarrow> Inl e
              | Inr out \<Rightarrow> Inr (out, if warn then [token] else [], len))"

text \<open>
  The body of the \<^verbatim>\<open>while\<close> loop of \<^verbatim>\<open>unparse\<close> after \<^verbatim>\<open>toks_read++\<close>, for the
  three kinds of window: what is done with the token.
\<close>

datatype window_action =
    Emit int int   \<comment> \<open>\<^verbatim>\<open>syms_written += write_next(tok, start, stop)\<close>\<close>
  | Skip           \<comment> \<open>nothing is written\<close>
  | Break          \<comment> \<open>\<^verbatim>\<open>break\<close>\<close>

definition window_case :: "RLZToken \<Rightarrow> int \<Rightarrow> int \<Rightarrow> int \<Rightarrow> window_action" where
  "window_case tok start_pos' stop_pos out_pos =
     (let effective_token_length = (if sint (length_tok tok) = 0 then 1 else sint (length_tok tok));
          token_start_pos = to_int64 (out_pos + 1);
          token_end_pos = to_int64 (out_pos + effective_token_length);
          start = to_int64 (start_pos' - token_start_pos);
          stop = to_int64 (to_int64 (sint (length_tok tok) + stop_pos) - token_end_pos)
      in
        if 0 < start_pos' \<and> stop_pos = 0 then
          (if start_pos' \<le> token_start_pos then Emit 0 0
           else if token_start_pos < start_pos' \<and> start_pos' \<le> token_end_pos
             then Emit start (sint (length_tok tok))
           else Skip)
        else if start_pos' = 0 \<and> 0 < stop_pos then
          (if token_end_pos < stop_pos then Emit 0 0
           else if token_start_pos \<le> stop_pos \<and> stop_pos \<le> token_end_pos
             then Emit 0 stop
           else Break)
        else
          (if stop_pos < token_start_pos \<or> token_end_pos < start_pos' then
             (if stop_pos < token_start_pos then Break else Skip)
           else if start_pos' \<le> token_start_pos \<and> token_end_pos \<le> stop_pos then Emit 0 0
           else if token_start_pos \<le> start_pos' \<and> token_end_pos \<le> stop_pos
             then Emit start (sint (length_tok tok))
           else if start_pos' \<le> token_start_pos \<and> stop_pos \<le> token_end_pos
             then Emit 0 stop
           else Emit start stop))"


text \<open>Every token that is not the end sentinel consumes input: the loop of \<^verbatim>\<open>unparse\<close> ends.\<close>

lemma ifs_get_le: "ifs_get s = (r, s') \<Longrightarrow> length (content s') \<le> length (content s)"
  by (auto simp: ifs_get_def split: if_splits list.splits)

lemma ifs_get_lt: "ifs_get s = (Some b, s') \<Longrightarrow> length (content s') < length (content s)"
  by (auto simp: ifs_get_def split: if_splits list.splits)

lemma vbyte_pos_loop_le:
  "vbyte_pos_loop sw pos s = (r, s') \<Longrightarrow> length (content s') \<le> length (content s)"
proof (induction sw pos s rule: vbyte_pos_loop.induct)
  case (1 shiftwidth pos infile)
  show ?case
  proof (cases "shiftwidth < 64")
    case False
    with "1.prems" show ?thesis by (simp add: vbyte_pos_loop.simps [of shiftwidth pos infile])
  next
    case True
    obtain o1 i1 where g: "ifs_get infile = (o1, i1)" by (cases "ifs_get infile")
    show ?thesis
    proof (cases o1)
      case None
      with True g "1.prems" ifs_get_le [OF g] show ?thesis
        by (simp add: vbyte_pos_loop.simps [of shiftwidth pos infile])
    next
      case (Some c)
      show ?thesis
      proof (cases "(ucast c :: u64) AND 0x80 \<noteq> 0")
        case c: True
        from "1.prems" True g Some c
        have "vbyte_pos_loop (shiftwidth + 7) (pos + push_bit shiftwidth ((ucast c :: u64) AND 0x7F)) i1 = (r, s')"
          by (simp add: Let_def vbyte_pos_loop.simps [of shiftwidth pos infile])
        from "1.IH" [OF True g [symmetric] Some refl c this] ifs_get_le [OF g]
        show ?thesis by simp
      next
        case False
        with "1.prems" True g Some ifs_get_le [OF g] show ?thesis
          by (simp add: Let_def vbyte_pos_loop.simps [of shiftwidth pos infile])
      qed
    qed
  qed
qed

lemma vbyte_pos_loop_lt:
  assumes "vbyte_pos_loop sw pos s = (Some v, s')" and "sw < 64"
  shows "length (content s') < length (content s)"
proof -
  obtain o1 i1 where g: "ifs_get s = (o1, i1)" by (cases "ifs_get s")
  show ?thesis
  proof (cases o1)
    case None
    with assms g show ?thesis by (simp add: Let_def vbyte_pos_loop.simps [of sw pos s])
  next
    case (Some c)
    have lt: "length (content i1) < length (content s)"
      using g Some ifs_get_lt by simp
    show ?thesis
    proof (cases "(ucast c :: u64) AND 0x80 \<noteq> 0")
      case True
      with assms g Some
      have "vbyte_pos_loop (sw + 7) (pos + push_bit sw ((ucast c :: u64) AND 0x7F)) i1 = (Some v, s')"
        by (simp add: Let_def vbyte_pos_loop.simps [of sw pos s])
      from vbyte_pos_loop_le [OF this] lt show ?thesis by simp
    next
      case False
      with assms g Some lt show ?thesis by (simp add: Let_def vbyte_pos_loop.simps [of sw pos s])
    qed
  qed
qed

lemma vbyte_len_loop_le:
  "vbyte_len_loop sw len s = (r, s') \<Longrightarrow> length (content s') \<le> length (content s)"
proof (induction sw len s rule: vbyte_len_loop.induct)
  case (1 shiftwidth len infile)
  show ?case
  proof (cases "shiftwidth < 63")
    case False
    with "1.prems" show ?thesis by (simp add: vbyte_len_loop.simps [of shiftwidth len infile])
  next
    case True
    obtain o1 i1 where g: "ifs_get infile = (o1, i1)" by (cases "ifs_get infile")
    show ?thesis
    proof (cases o1)
      case None
      with True g "1.prems" ifs_get_le [OF g] show ?thesis
        by (simp add: vbyte_len_loop.simps [of shiftwidth len infile])
    next
      case (Some c)
      show ?thesis
      proof (cases "(ucast c :: u64) AND 0x80 \<noteq> 0")
        case c: True
        from "1.prems" True g Some c
        have "vbyte_len_loop (shiftwidth + 7) (len + push_bit shiftwidth ((ucast c :: u64) AND 0x7F)) i1 = (r, s')"
          by (simp add: Let_def vbyte_len_loop.simps [of shiftwidth len infile])
        from "1.IH" [OF True g [symmetric] Some refl c this] ifs_get_le [OF g]
        show ?thesis by simp
      next
        case False
        with "1.prems" True g Some ifs_get_le [OF g] show ?thesis
          by (simp add: Let_def vbyte_len_loop.simps [of shiftwidth len infile])
      qed
    qed
  qed
qed

lemma next_token_vbyte_lt:
  assumes "next_token_vbyte s = (tok, s')" and "\<not> is_end_sentinel tok"
  shows "length (content s') < length (content s)"
proof -
  obtain r1 s1 where p: "vbyte_pos_loop 0 0 s = (r1, s1)" by (cases "vbyte_pos_loop 0 0 s")
  show ?thesis
  proof (cases r1)
    case None
    with assms p show ?thesis by (simp add: next_token_vbyte_def)
  next
    case (Some v)
    have lt: "length (content s1) < length (content s)"
      using vbyte_pos_loop_lt [of 0 0 s v s1] p Some by simp
    obtain r2 s2 where l: "vbyte_len_loop 0 0 s1 = (r2, s2)" by (cases "vbyte_len_loop 0 0 s1")
    have le: "length (content s2) \<le> length (content s1)"
      using vbyte_len_loop_le [OF l] .
    from assms p Some l lt le show ?thesis
      by (auto simp: next_token_vbyte_def split: prod.splits if_splits option.splits)
  qed
qed

lemma next_token_32x2_lt:
  "next_token_32x2 s = (tok, s') \<Longrightarrow> \<not> is_end_sentinel tok \<Longrightarrow> length (content s') < length (content s)"
  by (auto simp: next_token_32x2_def ifs_read_def is_end_sentinel_def split: if_splits)

lemma next_token_64x2_lt:
  "next_token_64x2 s = (tok, s') \<Longrightarrow> \<not> is_end_sentinel tok \<Longrightarrow> length (content s') < length (content s)"
  by (auto simp: next_token_64x2_def ifs_read_def is_end_sentinel_def split: if_splits)

lemma ifs_extract_le: "ifs_extract s = (str, s') \<Longrightarrow> length (content s') \<le> length (content s)"
proof -
  assume a: "ifs_extract s = (str, s')"
  have 1: "length (dropWhile (\<lambda>b. \<not> isspace b) (dropWhile isspace (content s))) \<le> length (content s)"
    by (meson length_dropWhile_le order_trans)
  from a 1 show ?thesis
    by (auto simp: ifs_extract_def Let_def split: if_splits)
qed

lemma ifs_extract_lt:
  assumes "ifs_extract s = (str, s')" and "\<not> eofbit s'" and good: "ifs_good s"
  shows "length (content s') < length (content s)"
proof -
  let ?rest = "dropWhile isspace (content s)"
  from assms have ne: "?rest \<noteq> []"
    by (auto simp: ifs_extract_def Let_def split: if_splits)
  then have "\<not> isspace (hd ?rest)" using hd_dropWhile by blast
  then have "dropWhile (\<lambda>b. \<not> isspace b) ?rest = dropWhile (\<lambda>b. \<not> isspace b) (tl ?rest)"
    using ne by (cases ?rest) auto
  then have "length (dropWhile (\<lambda>b. \<not> isspace b) ?rest) \<le> length (tl ?rest)"
    using length_dropWhile_le [of "\<lambda>b. \<not> isspace b" "tl ?rest"] by (simp only:)
  also have "\<dots> < length ?rest" using ne by simp
  also have "\<dots> \<le> length (content s)" by (rule length_dropWhile_le)
  finally show ?thesis using assms ne good
    by (auto simp: ifs_extract_def Let_def split: if_splits)
qed

lemma next_token_ascii_lt:
  assumes "next_token_ascii s = Inr (tok, s')" and "\<not> is_end_sentinel tok" and good: "ifs_good s"
  shows "length (content s') < length (content s)"
proof -
  obtain str1 s1 where e1: "ifs_extract s = (str1, s1)" by (cases "ifs_extract s")
  obtain str2 s2 where e2: "ifs_extract s1 = (str2, s2)" by (cases "ifs_extract s1")
  from assms e1 have ne: "\<not> eofbit s1"
    by (auto simp: next_token_ascii_def split: if_splits)
  from assms e1 e2 ne have "s' = s2"
    by (auto simp: next_token_ascii_def split: if_splits sum.splits)
  with ifs_extract_lt [OF e1 ne good] ifs_extract_le [OF e2] show ?thesis by simp
qed

lemma next_token_consumes:
  assumes "next_token mode s = Inr (tok, s')" and "\<not> is_end_sentinel tok"
  shows "length (content s') < length (content s)"
  using assms next_token_32x2_lt [of s tok s'] next_token_64x2_lt [of s tok s']
    next_token_ascii_lt [of s tok s'] next_token_vbyte_lt [of s tok s']
  by (auto simp: next_token_def Let_def ifs_good_def split: if_splits prod.splits)

function unparse_loop ::
  "'a::len word FileReader \<Rightarrow> int \<Rightarrow> int \<Rightarrow> int \<Rightarrow> ifstream \<Rightarrow> 'a word OutputWriter
     \<Rightarrow> failure + 'a word OutputWriter" where
  "unparse_loop dict mode start_pos' stop_pos inputreader ow =
     (if \<not> keep_going inputreader then Inr ow
      else
        case next_token mode inputreader of
          Inl e \<Rightarrow> Inl e
        | Inr (tok, inputreader') \<Rightarrow>
            if is_end_sentinel tok then Inr ow
            else
              let ow1 = ow\<lparr>toks_read := toks_read ow + 1\<rparr> in
              if start_pos' = 0 \<and> stop_pos = 0 then
                (case write_next dict tok 0 0 of
                   Inl e \<Rightarrow> Inl e
                 | Inr (out, w, n) \<Rightarrow>
                     unparse_loop dict mode start_pos' stop_pos inputreader'
                       (ow1\<lparr>outfile := outfile ow1 @ out, warnings := warnings ow1 @ w,
                            syms_written := to_int64 (syms_written ow1 + n)\<rparr>))
              else
                let token_end_pos = to_int64 (output_pos ow
                      + (if sint (length_tok tok) = 0 then 1 else sint (length_tok tok)))
                in case window_case tok start_pos' stop_pos (output_pos ow) of
                     Break \<Rightarrow> Inr ow1
                   | Skip \<Rightarrow>
                       unparse_loop dict mode start_pos' stop_pos inputreader'
                         (ow1\<lparr>output_pos := token_end_pos\<rparr>)
                   | Emit start stop \<Rightarrow>
                       (case write_next dict tok start stop of
                          Inl e \<Rightarrow> Inl e
                        | Inr (out, w, n) \<Rightarrow>
                            unparse_loop dict mode start_pos' stop_pos inputreader'
                              (ow1\<lparr>outfile := outfile ow1 @ out, warnings := warnings ow1 @ w,
                                   syms_written := to_int64 (syms_written ow1 + n),
                                   output_pos := token_end_pos\<rparr>)))"
  by pat_completeness auto
termination
  by (relation "measure (\<lambda>(dict, mode, start_pos', stop_pos, inputreader, ow). length (content inputreader))")
     (auto dest: next_token_consumes)

declare unparse_loop.simps [simp del]

text \<open>
  \<^verbatim>\<open>unparse\<close>: the writer after the loop and the return value, the two counters packed
  into one 64-bit integer, \<^verbatim>\<open>(toks_read << 32) | syms_written\<close>.
\<close>

definition new_OutputWriter :: "'s OutputWriter" where
  "new_OutputWriter = \<lparr>outfile = [], warnings = [], toks_read = 0, syms_written = 0, output_pos = 0\<rparr>"

definition unparse ::
  "'a::len word FileReader \<Rightarrow> int \<Rightarrow> ifstream \<Rightarrow> int \<Rightarrow> int
     \<Rightarrow> failure + 'a word OutputWriter \<times> u64" where
  "unparse dict mode inputreader start_pos' stop_pos =
     (case unparse_loop dict mode start_pos' stop_pos inputreader new_OutputWriter of
        Inl e \<Rightarrow> Inl e
      | Inr ow \<Rightarrow> Inr (ow, word_of_int (push_bit 32 (toks_read ow) OR syms_written ow)))"

section \<open>rlzparse.cpp: Parser\<close>

text \<open>\<^verbatim>\<open>unsign\<close>: negatives become zero.\<close>

definition unsign :: "int \<Rightarrow> int" where
  "unsign i = (if i < 0 then 0 else i)"

text \<open>\<^verbatim>\<open>(left + right) / 2\<close> on \<^verbatim>\<open>long long\<close>: C++ division truncates towards zero.\<close>

definition midpoint :: "int \<Rightarrow> int \<Rightarrow> int" where
  "midpoint left right =
     (if left + right < 0 then - ((- (left + right)) div 2) else (left + right) div 2)"

lemma midpoint_bounds: "left \<le> right \<Longrightarrow> left \<le> midpoint left right \<and> midpoint left right \<le> right"
  by (auto simp: midpoint_def)

text \<open>
  The \<^verbatim>\<open>while (left <= right)\<close> loops of \<^verbatim>\<open>search_left\<close> and
  \<^verbatim>\<open>search_right\<close>. \<open>sa[mid] + offset\<close> is computed in the unsigned type \<^verbatim>\<open>S\<close>
  of the suffix array; it indexes the dictionary only when it is below its size.
\<close>

function search_left_loop ::
  "'a::len word FileReader \<Rightarrow> 'b::len word FileReader \<Rightarrow> 'a word \<Rightarrow> int \<Rightarrow> int \<Rightarrow> int \<Rightarrow> int
     \<Rightarrow> failure + int" where
  "search_left_loop dict sa text_symbol offset old_left_bound left right =
     (if left \<le> right then
        let mid = midpoint left right in
        case FileReader_at sa mid of
          Inl e \<Rightarrow> Inl e
        | Inr sa_mid \<Rightarrow>
            if unsign (FileReader_size dict) \<le> uint (sa_mid + word_of_int offset)
            then search_left_loop dict sa text_symbol offset old_left_bound (mid + 1) right
            else
              (case FileReader_at dict (uint (sa_mid + word_of_int offset)) of
                 Inl e \<Rightarrow> Inl e
               | Inr mid_symbol \<Rightarrow>
                   if mid_symbol < text_symbol
                   then search_left_loop dict sa text_symbol offset old_left_bound (mid + 1) right
                   else if text_symbol < mid_symbol
                   then search_left_loop dict sa text_symbol offset old_left_bound left (mid - 1)
                   else if mid = old_left_bound then Inr mid
                   else
                     (case FileReader_at sa (mid - 1) of
                        Inl e \<Rightarrow> Inl e
                      | Inr sa_prev \<Rightarrow>
                          if unsign (FileReader_size dict) \<le> uint (sa_prev + word_of_int offset)
                          then Inr mid
                          else
                            (case FileReader_at dict (uint (sa_prev + word_of_int offset)) of
                               Inl e \<Rightarrow> Inl e
                             | Inr mid_minus_one \<Rightarrow>
                                 if mid_minus_one = mid_symbol
                                 then search_left_loop dict sa text_symbol offset old_left_bound
                                        left (mid - 1)
                                 else Inr mid)))
      else Inr (- (left + 1)))"
  by pat_completeness auto
termination
proof (relation "measure (\<lambda>(dict, sa, text_symbol, offset, old_left_bound, left, right).
                   nat (right - left + 1))", goal_cases)
  case 1
  show ?case by simp
next
  case (2 dict sa text_symbol offset bound left right)
  then show ?case using midpoint_bounds [of left right] by simp
next
  case (3 dict sa text_symbol offset bound left right)
  then show ?case using midpoint_bounds [of left right] by simp
next
  case (4 dict sa text_symbol offset bound left right)
  then show ?case using midpoint_bounds [of left right] by simp
next
  case (5 dict sa text_symbol offset bound left right)
  then show ?case using midpoint_bounds [of left right] by simp
qed

declare search_left_loop.simps [simp del]

definition search_left ::
  "'a::len word FileReader \<Rightarrow> 'b::len word FileReader \<Rightarrow> 'a word \<Rightarrow> int \<Rightarrow> int \<Rightarrow> int
     \<Rightarrow> failure + int" where
  "search_left dict sa text_symbol offset old_left_bound right_bound =
     search_left_loop dict sa text_symbol offset old_left_bound old_left_bound right_bound"

function search_right_loop ::
  "'a::len word FileReader \<Rightarrow> 'b::len word FileReader \<Rightarrow> 'a word \<Rightarrow> int \<Rightarrow> int \<Rightarrow> int \<Rightarrow> int
     \<Rightarrow> failure + int" where
  "search_right_loop dict sa text_symbol offset old_right_bound left right =
     (if left \<le> right then
        let mid = midpoint left right in
        case FileReader_at sa mid of
          Inl e \<Rightarrow> Inl e
        | Inr sa_mid \<Rightarrow>
            if unsign (FileReader_size dict) \<le> uint (sa_mid + word_of_int offset)
            then search_right_loop dict sa text_symbol offset old_right_bound (mid + 1) right
            else
              (case FileReader_at dict (uint (sa_mid + word_of_int offset)) of
                 Inl e \<Rightarrow> Inl e
               | Inr mid_symbol \<Rightarrow>
                   if mid_symbol < text_symbol
                   then search_right_loop dict sa text_symbol offset old_right_bound (mid + 1) right
                   else if text_symbol < mid_symbol
                   then search_right_loop dict sa text_symbol offset old_right_bound left (mid - 1)
                   else if mid = old_right_bound then Inr mid
                   else
                     (case FileReader_at sa (mid + 1) of
                        Inl e \<Rightarrow> Inl e
                      | Inr sa_next \<Rightarrow>
                          if unsign (FileReader_size dict) \<le> uint (sa_next + word_of_int offset)
                          then Inr mid
                          else
                            (case FileReader_at dict (uint (sa_next + word_of_int offset)) of
                               Inl e \<Rightarrow> Inl e
                             | Inr mid_plus_one \<Rightarrow>
                                 if mid_plus_one = mid_symbol
                                 then search_right_loop dict sa text_symbol offset old_right_bound
                                        (mid + 1) right
                                 else Inr mid)))
      else Inr (- (right - 1)))"
  by pat_completeness auto
termination
proof (relation "measure (\<lambda>(dict, sa, text_symbol, offset, old_right_bound, left, right).
                   nat (right - left + 1))", goal_cases)
  case 1
  show ?case by simp
next
  case (2 dict sa text_symbol offset bound left right)
  then show ?case using midpoint_bounds [of left right] by simp
next
  case (3 dict sa text_symbol offset bound left right)
  then show ?case using midpoint_bounds [of left right] by simp
next
  case (4 dict sa text_symbol offset bound left right)
  then show ?case using midpoint_bounds [of left right] by simp
next
  case (5 dict sa text_symbol offset bound left right)
  then show ?case using midpoint_bounds [of left right] by simp
qed

declare search_right_loop.simps [simp del]

definition search_right ::
  "'a::len word FileReader \<Rightarrow> 'b::len word FileReader \<Rightarrow> 'a word \<Rightarrow> int \<Rightarrow> int \<Rightarrow> int
     \<Rightarrow> failure + int" where
  "search_right dict sa text_symbol offset left_bound old_right_bound =
     search_right_loop dict sa text_symbol offset old_right_bound left_bound old_right_bound"

text \<open>
  The symbol the searches compare with: \<open>D[SA[m] + offset]\<close>, if index \<open>m\<close> is in the
  suffix array and the suffix has not ended.
\<close>

definition symbol_at ::
  "'a::len word FileReader \<Rightarrow> 'b::len word FileReader \<Rightarrow> int \<Rightarrow> int \<Rightarrow> 'a word option" where
  "symbol_at D SA offset m =
     (case FileReader_at SA m of
        Inl e \<Rightarrow> None
      | Inr x \<Rightarrow>
          if unsign (FileReader_size D) \<le> uint (x + word_of_int offset) then None
          else (case FileReader_at D (uint (x + word_of_int offset)) of
                  Inl e \<Rightarrow> None
                | Inr symbol \<Rightarrow> Some symbol))"

text \<open>
  The parser: dictionary and suffix array (of symbol types \<^verbatim>\<open>T\<close> and \<^verbatim>\<open>S\<close>), the
  one-symbol pushback buffer, and the source file as the whole symbols not yet read with
  its end-of-file bit (the bytes after the last whole symbol are never used as a
  symbol: \<open>read_counter\<close> has passed \<open>source_file_size_symbols\<close> by then).
\<close>

record ('t, 's) Parser =
  dict :: "'t FileReader"
  sa :: "'s FileReader"
  unget_buffer :: 't
  has_unget :: bool
  source_file :: "'t list"
  source_eof :: bool
  source_file_size_symbols :: int
  read_counter :: int

definition new_Parser ::
  "'a::len word list \<Rightarrow> 'a word FileReader \<Rightarrow> 'b::len word FileReader \<Rightarrow> ('a word, 'b word) Parser" where
  "new_Parser input dictionary suffix_array =
     \<lparr>dict = dictionary, sa = suffix_array, unget_buffer = 0, has_unget = False,
      source_file = input, source_eof = False,
      source_file_size_symbols = int (length input), read_counter = 0\<rparr>"

definition getnext :: "('a::len word, 'b::len word) Parser \<Rightarrow> 'a word \<times> ('a word, 'b word) Parser" where
  "getnext p =
     (if has_unget p
      then (unget_buffer p, p\<lparr>has_unget := False, read_counter := read_counter p + 1\<rparr>)
      else case source_file p of
             [] \<Rightarrow> (0, p\<lparr>source_eof := True, read_counter := read_counter p + 1\<rparr>)
           | c # cs \<Rightarrow> (c, p\<lparr>source_file := cs, read_counter := read_counter p + 1\<rparr>))"

definition end_of_input :: "('a::len word, 'b::len word) Parser \<Rightarrow> bool" where
  "end_of_input p \<longleftrightarrow> source_eof p \<and> \<not> has_unget p"

definition unget :: "'a::len word \<Rightarrow> ('a word, 'b::len word) Parser \<Rightarrow> ('a word, 'b word) Parser" where
  "unget symbol p = p\<lparr>unget_buffer := symbol, read_counter := read_counter p - 1, has_unget := True\<rparr>"

text \<open>
  The inner loop of \<^verbatim>\<open>next_token\<close>, entered when one suffix is left
  (\<^verbatim>\<open>leftmost == rightmost\<close>): it compares the input with the dictionary from
  \<open>token_start_pos + offset\<close> on, and reads \<open>dict\<close> before any test of the index.
\<close>

function fast_path_loop ::
  "('a::len word, 'b::len word) Parser \<Rightarrow> 'b word \<Rightarrow> 'a word \<Rightarrow> int \<Rightarrow> failure + RLZToken \<times> ('a word, 'b word) Parser" where
  "fast_path_loop p token_start_pos c offset =
     (if read_counter p \<le> source_file_size_symbols p then
        (case FileReader_at (dict p) (to_int64 (uint token_start_pos + offset)) of
           Inl e \<Rightarrow> Inl e
         | Inr dict_sym_here \<Rightarrow>
             if c \<noteq> dict_sym_here
             then Inr (\<lparr>start_pos = ucast token_start_pos, length_tok = word_of_int offset\<rparr>,
                       unget c p)
             else fast_path_loop (snd (getnext p)) token_start_pos (fst (getnext p)) (offset + 1))
      else Inr (\<lparr>start_pos = ucast token_start_pos, length_tok = word_of_int offset\<rparr>, p))"
  by pat_completeness auto
termination
  by (relation "measure (\<lambda>(p, token_start_pos, c, offset).
                   nat (source_file_size_symbols p - read_counter p + 1))")
     (auto simp: getnext_def split: list.splits)

declare fast_path_loop.simps [simp del]

text \<open>The outer \<^verbatim>\<open>while (read_counter <= source_file_size_symbols)\<close> loop and what follows it.\<close>

function next_token_loop ::
  "('a::len word, 'b::len word) Parser \<Rightarrow> 'a word \<Rightarrow> int \<Rightarrow> int \<Rightarrow> int \<Rightarrow> int \<Rightarrow> int \<Rightarrow> bool
     \<Rightarrow> failure + RLZToken \<times> ('a word, 'b word) Parser" where
  "next_token_loop p c offset leftmost rightmost best_pos best_len matching_suffix_found =
     (if read_counter p \<le> source_file_size_symbols p then
        if end_of_input p then Inr (end_sentinel, p)
        else
          case search_left (dict p) (sa p) c (to_int32 offset) leftmost rightmost of
            Inl e \<Rightarrow> Inl e
          | Inr leftmost' \<Rightarrow>
              if leftmost' < 0 then
                (if matching_suffix_found then
                   (case FileReader_at (sa p) best_pos of
                      Inl e \<Rightarrow> Inl e
                    | Inr sa_best \<Rightarrow>
                        Inr (\<lparr>start_pos = word_of_int (unsign (to_long_long sa_best)),
                              length_tok = word_of_int best_len\<rparr>, unget c p))
                 else Inr (\<lparr>start_pos = ucast c, length_tok = 0\<rparr>, p))
              else
                (case search_right (dict p) (sa p) c (to_int32 offset) leftmost' rightmost of
                   Inl e \<Rightarrow> Inl e
                 | Inr rightmost' \<Rightarrow>
                     if rightmost' < 0 then Inl (Exit EXIT_BUG)
                     else if leftmost' = rightmost' then
                       (case FileReader_at (sa p) leftmost' of
                          Inl e \<Rightarrow> Inl e
                        | Inr token_start_pos \<Rightarrow> fast_path_loop p token_start_pos c offset)
                     else if end_of_input (snd (getnext p)) then
                       (case FileReader_at (sa p) leftmost' of
                          Inl e \<Rightarrow> Inl e
                        | Inr sa_leftmost \<Rightarrow>
                            Inr (\<lparr>start_pos = ucast sa_leftmost,
                                  length_tok = word_of_int (offset + 1)\<rparr>, snd (getnext p)))
                     else next_token_loop (snd (getnext p)) (fst (getnext p)) (offset + 1)
                            leftmost' rightmost' leftmost' (offset + 1) True)
      else if end_of_input p then Inr (end_sentinel, p)
      else Inl (Exit EXIT_BUG))"
  by pat_completeness auto
termination
  by (relation "measure (\<lambda>(p, c, offset, leftmost, rightmost, best_pos, best_len, found).
                   nat (source_file_size_symbols p - read_counter p + 1))")
     (auto simp: getnext_def split: list.splits)

declare next_token_loop.simps [simp del]

definition parser_next_token ::
  "('a::len word, 'b::len word) Parser \<Rightarrow> failure + RLZToken \<times> ('a word, 'b word) Parser" where
  "parser_next_token p =
     next_token_loop (snd (getnext p)) (fst (getnext p)) 0 0 (FileReader_size (sa p) - 1) 0 0 False"

text \<open>
  \<^verbatim>\<open>work\<close>: tokens are found and written until \<^verbatim>\<open>output_token\<close> returns 0, which it
  does for the end sentinel only. The result is the bytes put on the output file (the
  statistics counters of \<^verbatim>\<open>work\<close> do not influence them and are left out). The loop
  is defined as a partial function: \<open>None\<close> stands for a run that does not end.
\<close>

partial_function (option) work ::
  "('a::len word, 'b::len word) Parser \<Rightarrow> int \<Rightarrow> byte list \<Rightarrow> (failure + byte list) option" where
  "work p output_mode outfile_bytes =
     (case parser_next_token p of
        Inl e \<Rightarrow> Some (Inl e)
      | Inr (token, p') \<Rightarrow>
          (case output_token token output_mode of
             Inl e \<Rightarrow> Some (Inl e)
           | Inr (bytes, keep_going') \<Rightarrow>
               if 0 < keep_going' then work p' output_mode (outfile_bytes @ bytes)
               else Some (Inr (outfile_bytes @ bytes))))"

declare work.simps [code]

text \<open>The two programs: \<^verbatim>\<open>rlzparse\<close> writes the encoded file, \<^verbatim>\<open>rlzunparse\<close> reads it.\<close>

definition rlzparse ::
  "'a::len word list \<Rightarrow> 'a word FileReader \<Rightarrow> 'b::len word FileReader \<Rightarrow> int
     \<Rightarrow> (failure + byte list) option" where
  "rlzparse input dictionary suffix_array output_mode =
     work (new_Parser input dictionary suffix_array) output_mode []"

definition rlzunparse ::
  "byte list \<Rightarrow> 'a::len word FileReader \<Rightarrow> int \<Rightarrow> int \<Rightarrow> int
     \<Rightarrow> failure + 'a word OutputWriter \<times> u64" where
  "rlzunparse encoded dictionary input_mode from to =
     (let start_pos' = (if from < 0 then 0 else from);
          stop_pos = (if to < 0 then 0 else to)
      in if stop_pos < start_pos' \<and> 0 < stop_pos then Inl (Exit EXIT_USER_ERROR)
         else unparse dictionary input_mode (ifs_open encoded) start_pos' stop_pos)"

text \<open>
  Compression followed by decompression of the window \<open>(from, to)\<close>, with the same
  format: two runs, each of which loads the dictionary file into its own memory.
\<close>

definition parse_unparse ::
  "'a::len word list \<Rightarrow> 'a word FileReader \<Rightarrow> 'b::len word FileReader \<Rightarrow> 'a word FileReader
     \<Rightarrow> int \<Rightarrow> int \<Rightarrow> int \<Rightarrow> (failure + 'a word OutputWriter \<times> u64) option" where
  "parse_unparse input dictionary suffix_array dictionary' format from to =
     (case rlzparse input dictionary suffix_array format of
        None \<Rightarrow> None
      | Some (Inl e) \<Rightarrow> Some (Inl e)
      | Some (Inr encoded) \<Rightarrow> Some (rlzunparse encoded dictionary' format from to))"

section \<open>Suffix arrays\<close>

text \<open>
  The order of suffixes: lexicographic, the end of the dictionary below every symbol.
  A valid suffix array lists every position of the dictionary once, the suffixes in
  non-decreasing order.
\<close>

fun suffix_le :: "'a::len word list \<Rightarrow> 'a word list \<Rightarrow> bool" where
  "suffix_le [] ys = True"
| "suffix_le (x # xs) [] = False"
| "suffix_le (x # xs) (y # ys) = (x < y \<or> (x = y \<and> suffix_le xs ys))"

definition valid_suffix_array :: "'a::len word list \<Rightarrow> 'b::len word list \<Rightarrow> bool" where
  "valid_suffix_array dictionary suffix_array \<longleftrightarrow>
     length suffix_array = length dictionary
     \<and> distinct suffix_array
     \<and> list_all (\<lambda>i. unat i < length dictionary) suffix_array
     \<and> sorted_wrt (\<lambda>i j. suffix_le (drop (unat i) dictionary) (drop (unat j) dictionary))
           suffix_array"

section \<open>What a token stands for\<close>

text \<open>
  The symbols a token stands for: a literal is the symbol in its \<^verbatim>\<open>start_pos\<close>, a copy token
  is \<^verbatim>\<open>length\<close> symbols of the dictionary from \<^verbatim>\<open>start_pos\<close> on. \<open>window_emit\<close> is the body
  of the windowed loop of \<^verbatim>\<open>unparse\<close> for one token: what it writes and the warnings.
\<close>

definition payload :: "'a::len word list \<Rightarrow> RLZToken \<Rightarrow> 'a word list" where
  "payload D tok =
     (if sint (length_tok tok) = 0 then [ucast (start_pos tok)]
      else take (nat (sint (length_tok tok))) (drop (nat (sint (start_pos tok))) D))"

definition token_in_dictionary :: "'a::len word list \<Rightarrow> RLZToken \<Rightarrow> bool" where
  "token_in_dictionary D tok \<longleftrightarrow>
     sint (length_tok tok) = 0
     \<or> (0 < sint (length_tok tok) \<and> 0 \<le> sint (start_pos tok)
        \<and> sint (start_pos tok) + sint (length_tok tok) \<le> int (length D))"

definition window_emit ::
  "'a::len word FileReader \<Rightarrow> RLZToken \<Rightarrow> int \<Rightarrow> int \<Rightarrow> int \<Rightarrow> failure + 'a word list \<times> RLZToken list" where
  "window_emit D tok start_pos' stop_pos out_pos =
     (case window_case tok start_pos' stop_pos out_pos of
        Break \<Rightarrow> Inr ([], [])
      | Skip \<Rightarrow> Inr ([], [])
      | Emit start stop \<Rightarrow>
          (case write_next D tok start stop of
             Inl e \<Rightarrow> Inl e
           | Inr (out, w, n) \<Rightarrow> Inr (out, w)))"

section \<open>Facts about byte order and casts\<close>

lemma ucast_u32_mod: "(ucast (w :: u64) :: u32) = of_nat (unat w mod 2 ^ 32)"
proof -
  have "(ucast w :: u32) = of_nat (take_bit 32 (unat w))"
    by (rule bit_word_eqI) (simp add: bit_simps)
  then show ?thesis by (simp only: take_bit_eq_mod)
qed

lemma ucast_u32_smod: "(ucast (w :: u64) :: u32) = of_int (sint w mod 2 ^ 32)"
proof -
  have "(ucast w :: u32) = of_int (take_bit 32 (sint w))"
    by (rule bit_word_eqI) (simp add: bit_simps bit_sint_iff)
  then show ?thesis by (simp only: take_bit_eq_mod)
qed

lemma le_bytes_nth: "i < n \<Longrightarrow> le_bytes n w ! i = of_nat (unat w div 256 ^ i mod 256)"
proof -
  assume "i < n"
  have "(256::nat) ^ i = 2 ^ (8 * i)" by (simp add: power_mult)
  then have "unat w div 256 ^ i mod 256 = take_bit 8 (drop_bit (8 * i) (unat w))"
    by (simp add: take_bit_eq_mod drop_bit_eq_div)
  moreover have "(ucast (drop_bit (8 * i) w) :: byte) = of_nat (take_bit 8 (drop_bit (8 * i) (unat w)))"
    by (rule bit_word_eqI) (auto simp add: bit_simps)
  ultimately show ?thesis using \<open>i < n\<close> by (simp add: le_bytes_def)
qed

lemma le_bytes_eq: "le_bytes n w = map (\<lambda>i. of_nat (unat w div 256 ^ i mod 256)) [0..<n]"
proof (rule nth_equalityI)
  show "length (le_bytes n w) = length (map (\<lambda>i. of_nat (unat w div 256 ^ i mod 256) :: byte) [0..<n])"
    by (simp add: le_bytes_def)
next
  fix i assume "i < length (le_bytes n w)"
  then have "i < n" by (simp add: le_bytes_def)
  then show "le_bytes n w ! i = map (\<lambda>i. of_nat (unat w div 256 ^ i mod 256)) [0..<n] ! i"
    by (simp add: le_bytes_nth)
qed

section \<open>The 32x2 output format\<close>

text \<open>
  Claim C10. In 32x2 mode \<^verbatim>\<open>output_token\<close> writes, for every token that reaches the
  \<^verbatim>\<open>FMT_32X2\<close> case (every token but the end sentinel, for which the function returns
  before the \<^verbatim>\<open>switch\<close>), exactly eight bytes: \<open>start_pos mod 2^32\<close> and
  \<open>length mod 2^32\<close>, each as four little-endian bytes (byte \<open>i\<close> is the value divided
  by \<open>256^i\<close>, modulo 256). A field of \<open>2^32\<close> or more is truncated; the call returns
  normally, and the branch writes nothing to \<^verbatim>\<open>cerr\<close>.
\<close>

theorem output_token_32x2_truncates:
  assumes "\<not> is_end_sentinel token"
  shows "output_token token FMT_32X2 =
           Inr (map (\<lambda>i. of_nat (unat (start_pos token) mod 2 ^ 32 div 256 ^ i mod 256)) [0..<4]
                  @ map (\<lambda>i. of_nat (nat (sint (length_tok token) mod 2 ^ 32) div 256 ^ i mod 256)) [0..<4],
                if 0 < sint (length_tok token) then length_tok token else 1)"
proof -
  have "unat (of_nat (unat (start_pos token) mod 2 ^ 32) :: u32) = unat (start_pos token) mod 2 ^ 32"
    by (simp add: unat_of_nat take_bit_eq_mod)
  moreover have "unat (of_int (sint (length_tok token) mod 2 ^ 32) :: u32)
                   = nat (sint (length_tok token) mod 2 ^ 32)"
    by (simp add: unat_eq_nat_uint uint_word_of_int take_bit_eq_mod)
  ultimately show ?thesis
    using assms
    by (simp add: output_token_def le_bytes_eq [where 'a = 32]
          ucast_u32_mod [symmetric] ucast_u32_smod [symmetric]
          ucast_u32_mod [of "start_pos token"] ucast_u32_smod [of "length_tok token"])
qed

theorem output_token_32x2_truncates_witness:
  "\<not> is_end_sentinel \<lparr>start_pos = 0x100000005, length_tok = 0x200000102\<rparr>
   \<and> output_token \<lparr>start_pos = 0x100000005, length_tok = 0x200000102\<rparr> FMT_32X2
       = Inr ([5, 0, 0, 0, 2, 1, 0, 0], 0x200000102)"
proof -
  have ns: "\<not> is_end_sentinel \<lparr>start_pos = 0x100000005, length_tok = 0x200000102\<rparr>"
    by (simp add: is_end_sentinel_def end_sentinel_def)
  show ?thesis
    using ns output_token_32x2_truncates [OF ns]
    by (simp add: upt_rec)
qed

section \<open>The vbyte codec\<close>

text \<open>Facts about the seven-bit groups of a 64-bit word.\<close>

lemma small_byte: "(n :: u64) \<le> 127 \<Longrightarrow> (ucast (ucast n :: byte) :: u64) = n"
proof -
  assume "n \<le> 127"
  then have "n < 2 ^ 8" by (simp add: word_le_nat_alt word_less_nat_alt)
  then have "take_bit 8 n = n" by (simp add: less_mask_eq take_bit_eq_mask)
  moreover have "(ucast (ucast n :: byte) :: u64) = take_bit 8 n"
    by (rule bit_word_eqI) (auto simp: bit_simps)
  ultimately show ?thesis by simp
qed

lemma split7: "push_bit s ((n :: u64) AND 0x7F) + push_bit (s + 7) (drop_bit 7 n) = push_bit s n"
proof -
  have "n AND 0x7F = take_bit 7 n" by (simp add: take_bit_eq_mask mask_eq_exp_minus_1)
  moreover have "push_bit (s + 7) (drop_bit 7 n) = push_bit s (push_bit 7 (drop_bit 7 n))"
    by (simp add: push_bit_add add.commute)
  moreover have "push_bit 7 (drop_bit 7 n) + take_bit 7 n = n" by (rule bits_ident)
  ultimately show ?thesis
    by (metis add.commute push_bit_add)
qed

lemma h80: "(0x80 :: 'a::len word) = 2 ^ 7" by simp
lemma h7F: "(0x7F :: 'a::len word) = mask 7" by (simp add: mask_eq_exp_minus_1)

lemma and_0x80: "(x :: 'a::len word) AND 0x80 = 0 \<longleftrightarrow> \<not> bit x 7"
  using and_exp_eq_0_iff_not_bit [of x 7] by simp

lemma bit_0x80: "bit (0x80 :: 'a::len word) i \<longleftrightarrow> i = 7 \<and> 7 < LENGTH('a)"
  using bit_exp_iff [where 'a = "'a word", of 7 i] by (auto simp: bit_simps)

lemma bit_128_int: "bit (128 :: int) i \<longleftrightarrow> i = 7"
  using bit_exp_iff [where 'a = int, of 7 i] by simp

lemma small_no_cont: "(n :: u64) \<le> 127 \<Longrightarrow> n AND 0x80 = 0"
proof -
  assume "n \<le> 127"
  then have "n < 2 ^ 7" by (simp add: word_le_nat_alt word_less_nat_alt)
  then have "take_bit 7 n = n" by (simp add: less_mask_eq take_bit_eq_mask)
  then have "\<not> bit n 7" by (metis bit_take_bit_iff less_irrefl)
  then show ?thesis by (simp add: and_0x80)
qed

lemma cont_byte_flag: "(ucast (ucast ((n :: u64) AND 0x7F) OR (0x80 :: byte)) :: u64) AND 0x80 \<noteq> 0"
proof -
  have "bit (ucast (ucast (n AND mask 7) OR (2 ^ 7 :: byte)) :: u64) 7"
    by (simp add: bit_simps)
  then have "bit (ucast (ucast (n AND 0x7F) OR (0x80 :: byte)) :: u64) 7"
    by (simp only: h80 h7F)
  then show ?thesis by (simp only: and_0x80 not_not)
qed

lemma cont_byte_low: "(ucast (ucast ((n :: u64) AND 0x7F) OR (0x80 :: byte)) :: u64) AND 0x7F = n AND 0x7F"
  by (rule bit_word_eqI) (auto simp: h7F bit_simps bit_128_int)

lemma big_drop_pos: "\<not> (n :: u64) \<le> 127 \<Longrightarrow> 0 < drop_bit 7 n"
proof -
  assume "\<not> n \<le> 127"
  then have "2 ^ 7 \<le> unat n" by (simp add: word_le_nat_alt)
  then have "0 < unat n div 2 ^ 7" by (simp add: div_greater_zero_iff)
  moreover have "unat (drop_bit 7 n) = unat n div 2 ^ 7"
    using unat_drop_bit_eq [of 7 n] drop_bit_eq_div [of 7 "unat n"] by (simp only:)
  ultimately show ?thesis by (simp add: word_less_nat_alt)
qed

lemma small_drop_zero: "(n :: u64) \<le> 127 \<Longrightarrow> drop_bit 7 n = 0"
proof -
  assume "n \<le> 127"
  then have "unat n < 2 ^ 7" by (simp add: word_le_nat_alt)
  then have "unat n div 2 ^ 7 = 0" by simp
  moreover have "unat (drop_bit 7 n) = unat n div 2 ^ 7"
    using unat_drop_bit_eq [of 7 n] drop_bit_eq_div [of 7 "unat n"] by (simp only:)
  ultimately show ?thesis by (simp add: unat_eq_zero)
qed

lemma drop_bound:
  assumes "unat (n :: u64) < 2 ^ (k + 7)"
  shows "unat (drop_bit 7 n) < 2 ^ k"
proof -
  have "unat (drop_bit 7 n) = unat n div 2 ^ 7"
    using unat_drop_bit_eq [of 7 n] drop_bit_eq_div [of 7 "unat n"] by (simp only:)
  moreover have "unat n div 2 ^ 7 < 2 ^ k"
    using assms by (simp add: less_mult_imp_div_less power_add)
  ultimately show ?thesis by simp
qed


lemma ifs_get_Cons:
  "ifs_good infile \<Longrightarrow> content infile = b # bs \<Longrightarrow> ifs_get infile = (Some b, infile\<lparr>content := bs\<rparr>)"
  by (simp add: ifs_get_def)

lemma ifs_good_content_update [simp]: "ifs_good (infile\<lparr>content := bs\<rparr>) = ifs_good infile"
  by (simp add: ifs_good_def)

lemma vbyte_put_pos_small: "0 < p \<Longrightarrow> p \<le> 127 \<Longrightarrow> vbyte_put_pos p = [ucast p]"
  by (simp add: vbyte_put_pos.simps [of p] vbyte_put_pos.simps [of 0] small_drop_zero)

lemma vbyte_put_pos_big:
  "\<not> p \<le> 127 \<Longrightarrow> vbyte_put_pos p = (ucast (p AND 0x7F) OR 0x80) # vbyte_put_pos (drop_bit 7 p)"
proof -
  assume a: "\<not> p \<le> 127"
  then have "0 < p" by (simp add: word_greater_zero_iff) (metis a word_zero_le)
  with a show ?thesis by (simp add: vbyte_put_pos.simps [of p])
qed

lemma vbyte_pos_loop_put:
  assumes "0 < n" and "unat n < 2 ^ (64 - s)" and "s < 64"
    and "ifs_good infile" and "content infile = vbyte_put_pos n @ rest"
  shows "\<exists>s'. s' < 64 \<and>
           vbyte_pos_loop s pos infile = (Some (pos + push_bit s n, s'), infile\<lparr>content := rest\<rparr>)"
  using assms
proof (induction n arbitrary: s pos infile rule: vbyte_put_pos.induct)
  case (1 p)
  show ?case
  proof (cases "p \<le> 127")
    case True
    with "1.prems" have c: "content infile = ucast p # rest"
      by (simp add: vbyte_put_pos_small)
    have "vbyte_pos_loop s pos infile = (Some (pos + push_bit s p, s), infile\<lparr>content := rest\<rparr>)"
      using "1.prems"(3,4) True
      by (simp add: vbyte_pos_loop.simps [of s pos infile] ifs_get_Cons [OF _ c]
            small_byte small_no_cont)
    with "1.prems"(3) show ?thesis by blast
  next
    case False
    let ?b = "ucast (p AND 0x7F) OR (0x80 :: byte)"
    let ?infile' = "infile\<lparr>content := vbyte_put_pos (drop_bit 7 p) @ rest\<rparr>"
    from False "1.prems" have c: "content infile = ?b # (vbyte_put_pos (drop_bit 7 p) @ rest)"
      by (simp add: vbyte_put_pos_big)
    from False have "2 ^ 7 \<le> unat p" by (simp add: word_le_nat_alt)
    with "1.prems"(2) have "(2::nat) ^ 7 < 2 ^ (64 - s)" by linarith
    then have "7 < 64 - s" using power_less_imp_less_exp [of 2 7 "64 - s"] by simp
    then have s7: "s + 7 < 64" by simp
    then have e: "64 - s = (64 - (s + 7)) + 7" by simp
    have b: "unat (drop_bit 7 p) < 2 ^ (64 - (s + 7))"
      using "1.prems"(2) by (subst (asm) e) (rule drop_bound)
    have eq: "pos + push_bit s (p AND 0x7F) + push_bit (s + 7) (drop_bit 7 p) = pos + push_bit s p"
      using split7 [of s p] by (simp only: add.assoc)
    have upd: "?infile'\<lparr>content := rest\<rparr> = infile\<lparr>content := rest\<rparr>" by simp
    have "\<exists>s'. s' < 64 \<and>
            vbyte_pos_loop (s + 7) (pos + push_bit s (p AND 0x7F)) ?infile'
              = (Some (pos + push_bit s (p AND 0x7F) + push_bit (s + 7) (drop_bit 7 p), s'),
                 ?infile'\<lparr>content := rest\<rparr>)"
      using "1.prems"(4)
      by (intro "1.IH" [OF \<open>0 < p\<close> big_drop_pos [OF False] b s7]) simp_all
    then obtain s' where s': "s' < 64"
      and r: "vbyte_pos_loop (s + 7) (pos + push_bit s (p AND 0x7F)) ?infile'
                = (Some (pos + push_bit s p, s'), infile\<lparr>content := rest\<rparr>)"
      unfolding eq upd by blast
    have "vbyte_pos_loop s pos infile
            = vbyte_pos_loop (s + 7) (pos + push_bit s (p AND 0x7F)) ?infile'"
      using "1.prems"(3,4)
      by (simp add: vbyte_pos_loop.simps [of s pos infile] ifs_get_Cons [OF _ c]
            cont_byte_flag cont_byte_low del: push_bit_and)
    with r have "vbyte_pos_loop s pos infile = (Some (pos + push_bit s p, s'), infile\<lparr>content := rest\<rparr>)"
      by (simp only:)
    with s' show ?thesis by blast
  qed
qed


lemma vbyte_len_loop_put:
  assumes "0 < n" and "unat n < 2 ^ (63 - s)" and "s < 63"
    and "ifs_good infile" and "content infile = vbyte_put_pos n @ rest"
  shows "\<exists>s'. s' < 63 \<and>
           vbyte_len_loop s len infile = (Some (len + push_bit s n, s'), infile\<lparr>content := rest\<rparr>)"
  using assms
proof (induction n arbitrary: s len infile rule: vbyte_put_pos.induct)
  case (1 p)
  show ?case
  proof (cases "p \<le> 127")
    case True
    with "1.prems" have c: "content infile = ucast p # rest"
      by (simp add: vbyte_put_pos_small)
    have "vbyte_len_loop s len infile = (Some (len + push_bit s p, s), infile\<lparr>content := rest\<rparr>)"
      using "1.prems"(3,4) True
      by (simp add: vbyte_len_loop.simps [of s len infile] ifs_get_Cons [OF _ c]
            small_byte small_no_cont)
    with "1.prems"(3) show ?thesis by blast
  next
    case False
    let ?b = "ucast (p AND 0x7F) OR (0x80 :: byte)"
    let ?infile' = "infile\<lparr>content := vbyte_put_pos (drop_bit 7 p) @ rest\<rparr>"
    from False "1.prems" have c: "content infile = ?b # (vbyte_put_pos (drop_bit 7 p) @ rest)"
      by (simp add: vbyte_put_pos_big)
    from False have "2 ^ 7 \<le> unat p" by (simp add: word_le_nat_alt)
    with "1.prems"(2) have "(2::nat) ^ 7 < 2 ^ (63 - s)" by linarith
    then have "7 < 63 - s" using power_less_imp_less_exp [of 2 7 "63 - s"] by simp
    then have s7: "s + 7 < 63" by simp
    then have e: "63 - s = (63 - (s + 7)) + 7" by simp
    have b: "unat (drop_bit 7 p) < 2 ^ (63 - (s + 7))"
      using "1.prems"(2) by (subst (asm) e) (rule drop_bound)
    have eq: "len + push_bit s (p AND 0x7F) + push_bit (s + 7) (drop_bit 7 p) = len + push_bit s p"
      using split7 [of s p] by (simp only: add.assoc)
    have upd: "?infile'\<lparr>content := rest\<rparr> = infile\<lparr>content := rest\<rparr>" by simp
    have "\<exists>s'. s' < 63 \<and>
            vbyte_len_loop (s + 7) (len + push_bit s (p AND 0x7F)) ?infile'
              = (Some (len + push_bit s (p AND 0x7F) + push_bit (s + 7) (drop_bit 7 p), s'),
                 ?infile'\<lparr>content := rest\<rparr>)"
      using "1.prems"(4)
      by (intro "1.IH" [OF \<open>0 < p\<close> big_drop_pos [OF False] b s7]) simp_all
    then obtain s' where s': "s' < 63"
      and r: "vbyte_len_loop (s + 7) (len + push_bit s (p AND 0x7F)) ?infile'
                = (Some (len + push_bit s p, s'), infile\<lparr>content := rest\<rparr>)"
      unfolding eq upd by blast
    have "vbyte_len_loop s len infile
            = vbyte_len_loop (s + 7) (len + push_bit s (p AND 0x7F)) ?infile'"
      using "1.prems"(3,4)
      by (simp add: vbyte_len_loop.simps [of s len infile] ifs_get_Cons [OF _ c]
            cont_byte_flag cont_byte_low del: push_bit_and)
    with r have "vbyte_len_loop s len infile = (Some (len + push_bit s p, s'), infile\<lparr>content := rest\<rparr>)"
      by (simp only:)
    with s' show ?thesis by blast
  qed
qed

text \<open>On a non-negative \<^verbatim>\<open>length\<close> the signed loop is the unsigned one.\<close>

lemma sint_nonneg_iff: "0 \<le> sint (l :: u64) \<longleftrightarrow> \<not> bit l 63"
  by (simp add: sint_uint bit_simps)

lemma sint_nonneg_unat: "0 \<le> sint (l :: u64) \<Longrightarrow> sint l = int (unat l)"
proof -
  assume "0 \<le> sint l"
  then have nb: "\<not> bit l 63" by (simp add: sint_nonneg_iff)
  have "sint l = uint l"
  proof (rule bit_eqI)
    fix n :: nat
    consider "n < 63" | "n = 63" | "64 \<le> n" by linarith
    then show "bit (sint l) n \<longleftrightarrow> bit (uint l) n"
    proof cases
      case 1
      then show ?thesis by (simp add: bit_simps min_def)
    next
      case 2
      then show ?thesis using nb by (simp add: bit_simps)
    next
      case 3
      then show ?thesis using nb bit_imp_le_length [of l n] by (auto simp add: bit_simps min_def)
    qed
  qed
  then show ?thesis by simp
qed

lemma sint_nonneg_drop: "0 \<le> sint (l :: u64) \<Longrightarrow> signed_drop_bit 7 l = drop_bit 7 l"
proof -
  assume "0 \<le> sint l"
  then have nb: "\<not> bit l 63" by (simp add: sint_nonneg_iff)
  show ?thesis
  proof (rule bit_word_eqI)
    fix n assume "n < LENGTH(64)"
    show "bit (signed_drop_bit 7 l) n \<longleftrightarrow> bit (drop_bit 7 l) n"
      using nb bit_imp_le_length [of l "7 + n"]
      by (auto simp: bit_simps)
  qed
qed

lemma sint_nonneg_drop_nonneg: "0 \<le> sint (drop_bit 7 (l :: u64))"
  using bit_imp_le_length [of l 70] by (auto simp add: sint_nonneg_iff bit_simps)

lemma vbyte_put_len_eq: "0 \<le> sint l \<Longrightarrow> vbyte_put_len l = vbyte_put_pos l"
proof (induction l rule: vbyte_put_pos.induct)
  case (1 p)
  have u: "sint p = int (unat p)" using "1.prems" by (rule sint_nonneg_unat)
  have d: "signed_drop_bit 7 p = drop_bit 7 p" using "1.prems" by (rule sint_nonneg_drop)
  have lt: "0 < sint p \<longleftrightarrow> 0 < p" by (simp add: u word_less_nat_alt del: of_nat_unat)
  have le: "sint p \<le> 127 \<longleftrightarrow> p \<le> 127" by (simp add: u word_le_nat_alt del: of_nat_unat)
  show ?case
  proof (cases "0 < p")
    case False
    then show ?thesis using lt by (simp add: vbyte_put_len.simps [of p] vbyte_put_pos.simps [of p])
  next
    case True
    have "0 \<le> sint (drop_bit 7 p)" by (rule sint_nonneg_drop_nonneg)
    from "1.IH" [OF True this] True lt le d show ?thesis
      by (simp add: vbyte_put_len.simps [of p] vbyte_put_pos.simps [of p])
  qed
qed


lemma vbyte_put_pos_0: "vbyte_put_pos 0 = []"
  by (simp add: vbyte_put_pos.simps [of 0])

lemma decode_vbyte_pos:
  assumes "ifs_good infile" and "content infile = vbyte_bytes_pos N @ rest"
  shows "\<exists>sw. sw < 64 \<and> vbyte_pos_loop 0 0 infile = (Some (N, sw), infile\<lparr>content := rest\<rparr>)"
proof (cases "N = 0")
  case True
  with assms have c: "content infile = 0 # rest"
    by (simp add: vbyte_bytes_pos_def vbyte_put_pos_0)
  have "vbyte_pos_loop 0 0 infile = (Some (N, 0), infile\<lparr>content := rest\<rparr>)"
    using assms(1) True
    by (simp add: vbyte_pos_loop.simps [of 0 0 infile] ifs_get_Cons [OF _ c])
  then show ?thesis by (intro exI [of _ 0]) simp
next
  case False
  then have "0 < N" by (simp add: word_greater_zero_iff)
  moreover have "unat N < 2 ^ (64 - 0)" using unsigned_less [of N, where 'a = nat] by simp
  moreover from False assms have "content infile = vbyte_put_pos N @ rest"
    by (simp add: vbyte_bytes_pos_def)
  ultimately show ?thesis
    using vbyte_pos_loop_put [of N 0 infile rest 0] assms(1) by simp
qed

lemma decode_vbyte_len:
  assumes "ifs_good infile" and "content infile = vbyte_bytes_len L @ rest" and "0 \<le> sint L"
  shows "\<exists>sw. sw < 63 \<and> vbyte_len_loop 0 0 infile = (Some (L, sw), infile\<lparr>content := rest\<rparr>)"
proof (cases "L = 0")
  case True
  with assms have c: "content infile = 0 # rest"
    by (simp add: vbyte_bytes_len_def vbyte_put_len.simps [of 0])
  have "vbyte_len_loop 0 0 infile = (Some (L, 0), infile\<lparr>content := rest\<rparr>)"
    using assms(1) True
    by (simp add: vbyte_len_loop.simps [of 0 0 infile] ifs_get_Cons [OF _ c])
  then show ?thesis by (intro exI [of _ 0]) simp
next
  case False
  then have "0 < L" by (simp add: word_greater_zero_iff)
  moreover have "unat L < 2 ^ (63 - 0)"
  proof -
    have "int (unat L) < 2 ^ 63" using sint_lt [of L] sint_nonneg_unat [OF assms(3)] by simp
    then have "int (unat L) < int (2 ^ 63)" by simp
    then have "unat L < 2 ^ 63" by (simp only: of_nat_less_iff)
    then show ?thesis by simp
  qed
  moreover from False assms have "content infile = vbyte_put_pos L @ rest"
    by (simp add: vbyte_bytes_len_def vbyte_put_len_eq)
  ultimately show ?thesis
    using vbyte_len_loop_put [of L 0 infile rest 0] assms(1) by simp
qed

text \<open>The shape of the bytes of a positive number.\<close>

lemma bit7_small: "(p :: u64) \<le> 127 \<Longrightarrow> \<not> bit (ucast p :: byte) 7"
proof -
  assume "p \<le> 127"
  then have "p AND 0x80 = 0" by (rule small_no_cont)
  then have "\<not> bit p 7" by (simp add: and_0x80)
  then show ?thesis by (simp add: bit_simps)
qed

lemma vbyte_put_pos_shape:
  "0 < p \<Longrightarrow>
     vbyte_put_pos p \<noteq> []
     \<and> \<not> bit (last (vbyte_put_pos p)) 7
     \<and> (\<forall>b \<in> set (butlast (vbyte_put_pos p)). bit b 7)
     \<and> (\<forall>i < length (vbyte_put_pos p).
           take_bit 7 (vbyte_put_pos p ! i) = ucast (take_bit 7 (drop_bit (7 * i) p)))"
proof (induction p rule: vbyte_put_pos.induct)
  case (1 p)
  show ?case
  proof (cases "p \<le> 127")
    case True
    have "take_bit 7 (ucast p :: byte) = ucast (take_bit 7 p)"
      by (rule bit_word_eqI) (auto simp: bit_simps)
    with True "1.prems" show ?thesis
      by (simp add: vbyte_put_pos_small bit7_small)
  next
    case False
    let ?b = "ucast (p AND 0x7F) OR (0x80 :: byte)"
    let ?bs = "vbyte_put_pos (drop_bit 7 p)"
    have e: "vbyte_put_pos p = ?b # ?bs" using False by (rule vbyte_put_pos_big)
    have IH: "?bs \<noteq> [] \<and> \<not> bit (last ?bs) 7 \<and> (\<forall>b \<in> set (butlast ?bs). bit b 7)
              \<and> (\<forall>i < length ?bs. take_bit 7 (?bs ! i) = ucast (take_bit 7 (drop_bit (7 * i) (drop_bit 7 p))))"
      using "1.IH" [OF "1.prems" big_drop_pos [OF False]] .
    have b7: "bit ?b 7" by (simp add: bit_simps bit_128_int)
    have b0: "take_bit 7 ?b = ucast (take_bit 7 p)"
      by (rule bit_word_eqI) (auto simp: h7F bit_simps bit_128_int)
    have idx: "take_bit 7 ((?b # ?bs) ! i) = ucast (take_bit 7 (drop_bit (7 * i) p))"
      if "i < length (?b # ?bs)" for i
    proof (cases i)
      case 0
      then show ?thesis using b0 by simp
    next
      case (Suc j)
      with that have "j < length ?bs" by simp
      with IH have "take_bit 7 (?bs ! j) = ucast (take_bit 7 (drop_bit (7 * j) (drop_bit 7 p)))"
        by blast
      moreover have "drop_bit (7 * j) (drop_bit 7 p) = drop_bit (7 * Suc j) p"
        by (simp add: drop_bit_drop_bit add.commute)
      ultimately show ?thesis using Suc by simp
    qed
    from IH b7 idx show ?thesis unfolding e by auto
  qed
qed


lemma FMT_distinct:
  "FMT_VBYTE \<noteq> FMT_32X2" "FMT_VBYTE \<noteq> FMT_64X2" "FMT_VBYTE \<noteq> FMT_ASCII"
  "FMT_ASCII \<noteq> FMT_32X2" "FMT_ASCII \<noteq> FMT_64X2" "FMT_64X2 \<noteq> FMT_32X2"
  by (simp_all add: FMT_VBYTE_def FMT_32X2_def FMT_64X2_def FMT_ASCII_def)

text \<open>A token with a non-negative length, written in vbyte format, is read back as it was.\<close>

lemma next_token_vbyte_output_token:
  assumes len: "0 \<le> sint (length_tok tok)" and good: "ifs_good infile"
    and out: "output_token tok FMT_VBYTE = Inr (bytes, ret)"
    and c: "content infile = bytes @ rest"
  shows "next_token FMT_VBYTE infile = Inr (tok, infile\<lparr>content := rest\<rparr>)"
proof -
  from len have ns: "\<not> is_end_sentinel tok"
    by (auto simp: is_end_sentinel_def end_sentinel_def)
  from len have nm: "length_tok tok \<noteq> - 1" by auto
  from out ns have b: "bytes = vbyte_bytes_pos (start_pos tok) @ vbyte_bytes_len (length_tok tok)"
    by (auto simp: output_token_def FMT_distinct Let_def)
  let ?mid = "infile\<lparr>content := vbyte_bytes_len (length_tok tok) @ rest\<rparr>"
  from decode_vbyte_pos [OF good, of "start_pos tok" "vbyte_bytes_len (length_tok tok) @ rest"] b c
  obtain sw where sw: "sw < 64"
    and p: "vbyte_pos_loop 0 0 infile = (Some (start_pos tok, sw), ?mid)" by auto
  from decode_vbyte_len [of ?mid "length_tok tok" rest] good len
  obtain sw2 where sw2: "sw2 < 63"
    and l: "vbyte_len_loop 0 0 ?mid = (Some (length_tok tok, sw2), infile\<lparr>content := rest\<rparr>)"
    by auto
  have "next_token_vbyte infile = (tok, infile\<lparr>content := rest\<rparr>)"
    using p l sw sw2 by (simp add: next_token_vbyte_def)
  then show ?thesis
    using good nm by (simp add: next_token_def FMT_distinct ifs_good_def)
qed

text \<open>
  Claim C5. The vbyte codec of the \<^verbatim>\<open>start_pos\<close> field, for every 64-bit \<open>N\<close>: the
  decoder's loop run on the encoder's bytes (followed by any other bytes) returns \<open>N\<close>,
  stops before the overflow test can fire (\<open>shiftwidth < 64\<close>) and leaves the other
  bytes unread; zero is the single byte \<open>0x00\<close>; the bytes of a positive \<open>N\<close> carry
  its 7-bit groups from the least significant one on, the high bit set on every byte
  but the last, where it is clear. The \<^verbatim>\<open>length\<close> field is a signed 64-bit number:
  on every non-negative value its bytes are the same and its decoder's loop returns
  the value.
\<close>

theorem vbyte_codec_laws:
  fixes N :: u64
  shows "(\<exists>sw<64. vbyte_pos_loop 0 0 (ifs_open (vbyte_bytes_pos N @ rest))
                    = (Some (N, sw), ifs_open rest))
       \<and> vbyte_bytes_pos 0 = [0x00]
       \<and> (0 < N \<longrightarrow>
            vbyte_bytes_pos N \<noteq> []
            \<and> \<not> bit (last (vbyte_bytes_pos N)) 7
            \<and> (\<forall>b \<in> set (butlast (vbyte_bytes_pos N)). bit b 7)
            \<and> (\<forall>i < length (vbyte_bytes_pos N).
                  take_bit 7 (vbyte_bytes_pos N ! i) = ucast (take_bit 7 (drop_bit (7 * i) N))))
       \<and> (0 \<le> sint N \<longrightarrow>
            vbyte_bytes_len N = vbyte_bytes_pos N
            \<and> (\<exists>sw<63. vbyte_len_loop 0 0 (ifs_open (vbyte_bytes_len N @ rest))
                         = (Some (N, sw), ifs_open rest)))"
proof -
  have g: "ifs_good (ifs_open bs)" for bs by (simp add: ifs_good_def ifs_open_def)
  have u: "(ifs_open (bs @ rest))\<lparr>content := rest\<rparr> = ifs_open rest" for bs
    by (simp add: ifs_open_def)
  have c: "content (ifs_open bs) = bs" for bs by (simp add: ifs_open_def)
  have 1: "\<exists>sw<64. vbyte_pos_loop 0 0 (ifs_open (vbyte_bytes_pos N @ rest)) = (Some (N, sw), ifs_open rest)"
    using decode_vbyte_pos [OF g c, of N rest] by (simp only: u)
  have 2: "vbyte_bytes_pos 0 = [0x00]"
    by (simp add: vbyte_bytes_pos_def vbyte_put_pos_0)
  have 3: "vbyte_bytes_pos N \<noteq> []
            \<and> \<not> bit (last (vbyte_bytes_pos N)) 7
            \<and> (\<forall>b \<in> set (butlast (vbyte_bytes_pos N)). bit b 7)
            \<and> (\<forall>i < length (vbyte_bytes_pos N).
                  take_bit 7 (vbyte_bytes_pos N ! i) = ucast (take_bit 7 (drop_bit (7 * i) N)))"
    if "0 < N"
  proof -
    from that have "vbyte_bytes_pos N = vbyte_put_pos N" by (auto simp: vbyte_bytes_pos_def)
    with vbyte_put_pos_shape [OF that] show ?thesis by simp
  qed
  have 4: "vbyte_bytes_len N = vbyte_bytes_pos N
            \<and> (\<exists>sw<63. vbyte_len_loop 0 0 (ifs_open (vbyte_bytes_len N @ rest)) = (Some (N, sw), ifs_open rest))"
    if "0 \<le> sint N"
    using decode_vbyte_len [OF g c that, of rest] that
    by (simp only: u) (simp add: vbyte_bytes_len_def vbyte_bytes_pos_def vbyte_put_len_eq)
  from 1 2 3 4 show ?thesis by blast
qed

theorem vbyte_codec_laws_witness:
  "(0 :: u64) < 300 \<and> 0 \<le> sint (300 :: u64)
   \<and> vbyte_bytes_pos 300 = [0xAC, 0x02]
   \<and> (\<exists>sw<64. vbyte_pos_loop 0 0 (ifs_open [0xAC, 0x02, 0x02]) = (Some (300, sw), ifs_open [0x02]))
   \<and> \<not> bit (0x02 :: byte) 7 \<and> bit (0xAC :: byte) 7
   \<and> (\<exists>sw<63. vbyte_len_loop 0 0 (ifs_open [0xAC, 0x02, 0x02]) = (Some (300, sw), ifs_open [0x02]))"
proof -
  have e: "vbyte_bytes_pos 300 = [0xAC, 0x02]" by code_simp
  have l: "vbyte_bytes_len 300 = [0xAC, 0x02]" by code_simp
  have p: "(0 :: u64) < 300" "0 \<le> sint (300 :: u64)" by simp_all
  from vbyte_codec_laws [of 300 "[0x02]"] p
  have "(\<exists>sw<64. vbyte_pos_loop 0 0 (ifs_open (vbyte_bytes_pos 300 @ [0x02])) = (Some (300, sw), ifs_open [0x02]))
        \<and> \<not> bit (last (vbyte_bytes_pos 300)) 7
        \<and> (\<forall>b \<in> set (butlast (vbyte_bytes_pos 300)). bit b 7)
        \<and> vbyte_bytes_len 300 = vbyte_bytes_pos 300
        \<and> (\<exists>sw<63. vbyte_len_loop 0 0 (ifs_open (vbyte_bytes_len 300 @ [0x02])) = (Some (300, sw), ifs_open [0x02]))"
    by blast
  then show ?thesis using p unfolding e l by simp
qed

section \<open>Overlong vbyte numbers\<close>

lemma cont_flag: "bit (c :: byte) 7 \<Longrightarrow> (ucast c :: u64) AND 0x80 \<noteq> 0"
  by (simp add: and_0x80 bit_simps)

lemma vbyte_pos_loop_overflow:
  assumes "j \<le> 10" and "10 - j \<le> length cs" and "\<forall>c \<in> set cs. bit c 7"
    and "ifs_good infile" and "content infile = cs @ rest"
  shows "\<exists>pos' infile'. vbyte_pos_loop (7 * j) pos infile = (Some (pos', 70), infile')"
  using assms
proof (induction "10 - j" arbitrary: j pos infile cs)
  case 0
  then have "j = 10" by simp
  then show ?case by (simp add: vbyte_pos_loop.simps [of 70 pos infile])
next
  case (Suc n)
  then have j: "j < 10" and sw: "7 * j < 64" by simp_all
  with Suc.prems obtain c cs' where cs: "cs = c # cs'" by (cases cs) auto
  let ?infile' = "infile\<lparr>content := cs' @ rest\<rparr>"
  have g: "ifs_get infile = (Some c, ?infile')"
    using Suc.prems cs by (simp add: ifs_get_Cons)
  have fl: "(ucast c :: u64) AND 0x80 \<noteq> 0" using Suc.prems cs by (simp add: cont_flag)
  have "\<exists>pos' infile'. vbyte_pos_loop (7 * Suc j) (pos + push_bit (7 * j) ((ucast c :: u64) AND 0x7F)) ?infile'
          = (Some (pos', 70), infile')"
    using Suc.hyps Suc.prems cs j by (intro Suc.hyps(1)) auto
  then show ?case
    using sw g fl by (simp add: vbyte_pos_loop.simps [of "7 * j" pos infile] add.commute [of 7] del: push_bit_and)
qed

lemma vbyte_len_loop_overflow:
  assumes "j \<le> 9" and "9 - j \<le> length cs" and "\<forall>c \<in> set cs. bit c 7"
    and "ifs_good infile" and "content infile = cs @ rest"
  shows "\<exists>len' infile'. vbyte_len_loop (7 * j) len infile = (Some (len', 63), infile')"
  using assms
proof (induction "9 - j" arbitrary: j len infile cs)
  case 0
  then have "j = 9" by simp
  then show ?case by (simp add: vbyte_len_loop.simps [of 63 len infile])
next
  case (Suc n)
  then have j: "j < 9" and sw: "7 * j < 63" by simp_all
  with Suc.prems obtain c cs' where cs: "cs = c # cs'" by (cases cs) auto
  let ?infile' = "infile\<lparr>content := cs' @ rest\<rparr>"
  have g: "ifs_get infile = (Some c, ?infile')"
    using Suc.prems cs by (simp add: ifs_get_Cons)
  have fl: "(ucast c :: u64) AND 0x80 \<noteq> 0" using Suc.prems cs by (simp add: cont_flag)
  have "\<exists>len' infile'. vbyte_len_loop (7 * Suc j) (len + push_bit (7 * j) ((ucast c :: u64) AND 0x7F)) ?infile'
          = (Some (len', 63), infile')"
    using Suc.hyps Suc.prems cs j by (intro Suc.hyps(1)) auto
  then show ?case
    using sw g fl by (simp add: vbyte_len_loop.simps [of "7 * j" len infile] add.commute [of 7] del: push_bit_and)
qed

lemma ifs_get_good: "ifs_get s = (Some b, s') \<Longrightarrow> ifs_good s'"
  by (auto simp: ifs_get_def ifs_good_def split: if_splits list.splits)

lemma vbyte_pos_loop_good:
  "ifs_good s \<Longrightarrow> vbyte_pos_loop sw pos s = (Some v, s') \<Longrightarrow> ifs_good s'"
proof (induction sw pos s rule: vbyte_pos_loop.induct)
  case (1 shiftwidth pos infile)
  show ?case
  proof (cases "shiftwidth < 64")
    case False
    with "1.prems" show ?thesis by (simp add: vbyte_pos_loop.simps [of shiftwidth pos infile])
  next
    case True
    obtain o1 i1 where g: "ifs_get infile = (o1, i1)" by (cases "ifs_get infile")
    show ?thesis
    proof (cases o1)
      case None
      with True g "1.prems" show ?thesis
        by (simp add: vbyte_pos_loop.simps [of shiftwidth pos infile])
    next
      case (Some c)
      then have gi: "ifs_good i1" using g ifs_get_good by simp
      show ?thesis
      proof (cases "(ucast c :: u64) AND 0x80 \<noteq> 0")
        case c: True
        from "1.prems" True g Some c
        have "vbyte_pos_loop (shiftwidth + 7) (pos + push_bit shiftwidth ((ucast c :: u64) AND 0x7F)) i1 = (Some v, s')"
          by (simp add: Let_def vbyte_pos_loop.simps [of shiftwidth pos infile] del: push_bit_and)
        from "1.IH" [OF True g [symmetric] Some refl c gi this] show ?thesis .
      next
        case False
        with "1.prems" True g Some gi show ?thesis
          by (auto simp add: Let_def vbyte_pos_loop.simps [of shiftwidth pos infile])
      qed
    qed
  qed
qed


lemma next_token_vbyte_pos_overflow:
  assumes "ifs_good infile" and "content infile = cs @ rest" and "10 \<le> length cs"
    and "\<forall>c \<in> set cs. bit c 7"
  shows "next_token FMT_VBYTE infile = Inl (Exit EXIT_INVALID_INPUT)"
proof -
  from vbyte_pos_loop_overflow [of 0 cs infile rest 0] assms
  obtain pos' infile' where "vbyte_pos_loop 0 0 infile = (Some (pos', 70), infile')" by auto
  then have "next_token_vbyte infile = (vbyte_error_token, infile')"
    by (simp add: next_token_vbyte_def)
  then show ?thesis
    using assms(1) by (simp add: next_token_def FMT_distinct ifs_good_def vbyte_error_token_def)
qed

lemma next_token_vbyte_len_overflow:
  assumes "ifs_good infile" and "vbyte_pos_loop 0 0 infile = (Some (P, sw), infile1)"
    and "sw \<le> 64" and "content infile1 = cs @ rest" and "9 \<le> length cs"
    and "\<forall>c \<in> set cs. bit c 7"
  shows "next_token FMT_VBYTE infile = Inl (Exit EXIT_INVALID_INPUT)"
proof -
  have g1: "ifs_good infile1" using assms(1,2) by (rule vbyte_pos_loop_good)
  from vbyte_len_loop_overflow [of 0 cs infile1 rest 0] assms g1
  obtain len' infile' where "vbyte_len_loop 0 0 infile1 = (Some (len', 63), infile')" by auto
  with assms(2,3) have "next_token_vbyte infile = (vbyte_error_token, infile')"
    by (simp add: next_token_vbyte_def)
  then show ?thesis
    using assms(1) by (simp add: next_token_def FMT_distinct ifs_good_def vbyte_error_token_def)
qed

lemma unparse_aborts:
  "ifs_good infile \<Longrightarrow> next_token mode infile = Inl e \<Longrightarrow> unparse D mode infile I J = Inl e"
  by (simp add: unparse_def unparse_loop.simps [of D mode I J infile] keep_going_def ifs_good_def)

text \<open>
  Claim C6. A \<^verbatim>\<open>start_pos\<close> field that opens with more than 10 bytes whose high bit is
  set, or a \<^verbatim>\<open>length\<close> field that does so with more than 9 after a \<^verbatim>\<open>start_pos\<close>
  field that was read well, makes \<^verbatim>\<open>next_token\<close> print its message and call
  \<^verbatim>\<open>exit(EXIT_INVALID_INPUT)\<close>, status 1: \<^verbatim>\<open>unparse\<close> does not return. The eleven
  bytes \<open>FF FF FF FF FF FF FF FF FF FF 80\<close> are such a \<^verbatim>\<open>start_pos\<close> field.
\<close>

theorem vbyte_overflow_aborts:
  "(ifs_good infile \<and> content infile = cs @ rest \<and> 10 < length cs \<and> (\<forall>c \<in> set cs. bit c 7)
      \<longrightarrow> next_token FMT_VBYTE infile = Inl (Exit EXIT_INVALID_INPUT)
          \<and> unparse D FMT_VBYTE infile I J = Inl (Exit EXIT_INVALID_INPUT))
   \<and> (ifs_good infile \<and> vbyte_pos_loop 0 0 infile = (Some (P, sw), infile1) \<and> sw \<le> 64
        \<and> content infile1 = cs @ rest \<and> 9 < length cs \<and> (\<forall>c \<in> set cs. bit c 7)
      \<longrightarrow> next_token FMT_VBYTE infile = Inl (Exit EXIT_INVALID_INPUT)
          \<and> unparse D FMT_VBYTE infile I J = Inl (Exit EXIT_INVALID_INPUT))
   \<and> EXIT_INVALID_INPUT \<noteq> 0
   \<and> next_token FMT_VBYTE
         (ifs_open [0xFF, 0xFF, 0xFF, 0xFF, 0xFF, 0xFF, 0xFF, 0xFF, 0xFF, 0xFF, 0x80])
       = Inl (Exit EXIT_INVALID_INPUT)"
proof -
  have a: "next_token FMT_VBYTE infile = Inl (Exit EXIT_INVALID_INPUT)
           \<and> unparse D FMT_VBYTE infile I J = Inl (Exit EXIT_INVALID_INPUT)"
    if "ifs_good infile" "content infile = cs @ rest" "10 < length cs" "\<forall>c \<in> set cs. bit c 7"
  proof -
    have n: "next_token FMT_VBYTE infile = Inl (Exit EXIT_INVALID_INPUT)"
      using that next_token_vbyte_pos_overflow [of infile cs rest] by simp
    from n unparse_aborts [OF that(1) n] show ?thesis by simp
  qed
  have b: "next_token FMT_VBYTE infile = Inl (Exit EXIT_INVALID_INPUT)
           \<and> unparse D FMT_VBYTE infile I J = Inl (Exit EXIT_INVALID_INPUT)"
    if "ifs_good infile" "vbyte_pos_loop 0 0 infile = (Some (P, sw), infile1)" "sw \<le> 64"
       "content infile1 = cs @ rest" "9 < length cs" "\<forall>c \<in> set cs. bit c 7"
  proof -
    have n: "next_token FMT_VBYTE infile = Inl (Exit EXIT_INVALID_INPUT)"
      using that next_token_vbyte_len_overflow [of infile P sw infile1 cs rest] by simp
    from n unparse_aborts [OF that(1) n] show ?thesis by simp
  qed
  have c: "EXIT_INVALID_INPUT \<noteq> 0" by (simp add: EXIT_INVALID_INPUT_def)
  have d: "next_token FMT_VBYTE
             (ifs_open [0xFF, 0xFF, 0xFF, 0xFF, 0xFF, 0xFF, 0xFF, 0xFF, 0xFF, 0xFF, 0x80])
           = Inl (Exit EXIT_INVALID_INPUT)"
    by (rule next_token_vbyte_pos_overflow
          [of _ "[0xFF, 0xFF, 0xFF, 0xFF, 0xFF, 0xFF, 0xFF, 0xFF, 0xFF, 0xFF, 0x80]" "[]"])
       (simp_all add: ifs_open_def ifs_good_def)
  from a b c d show ?thesis by blast
qed

theorem vbyte_overflow_aborts_witness:
  "ifs_good (ifs_open [0xFF, 0xFF, 0xFF, 0xFF, 0xFF, 0xFF, 0xFF, 0xFF, 0xFF, 0xFF, 0x80])
   \<and> 10 < length [0xFF, 0xFF, 0xFF, 0xFF, 0xFF, 0xFF, 0xFF, 0xFF, 0xFF, 0xFF, 0x80 :: byte]
   \<and> bit (0xFF :: byte) 7 \<and> bit (0x80 :: byte) 7
   \<and> unparse (new_FileReader [0x61, 0x62 :: byte] Map.empty) FMT_VBYTE
        (ifs_open [0xFF, 0xFF, 0xFF, 0xFF, 0xFF, 0xFF, 0xFF, 0xFF, 0xFF, 0xFF, 0x80]) 0 0
       = Inl (Exit EXIT_INVALID_INPUT)
   \<and> ifs_good (ifs_open [0x05, 0xFF, 0xFF, 0xFF, 0xFF, 0xFF, 0xFF, 0xFF, 0xFF, 0xFF, 0xFF])
   \<and> vbyte_pos_loop 0 0 (ifs_open [0x05, 0xFF, 0xFF, 0xFF, 0xFF, 0xFF, 0xFF, 0xFF, 0xFF, 0xFF, 0xFF])
       = (Some (5, 0), ifs_open [0xFF, 0xFF, 0xFF, 0xFF, 0xFF, 0xFF, 0xFF, 0xFF, 0xFF, 0xFF])
   \<and> 9 < length [0xFF, 0xFF, 0xFF, 0xFF, 0xFF, 0xFF, 0xFF, 0xFF, 0xFF, 0xFF :: byte]
   \<and> unparse (new_FileReader [0x61, 0x62 :: byte] Map.empty) FMT_VBYTE
        (ifs_open [0x05, 0xFF, 0xFF, 0xFF, 0xFF, 0xFF, 0xFF, 0xFF, 0xFF, 0xFF, 0xFF]) 0 0
       = Inl (Exit EXIT_INVALID_INPUT)"
proof -
  let ?cs = "[0xFF, 0xFF, 0xFF, 0xFF, 0xFF, 0xFF, 0xFF, 0xFF, 0xFF, 0xFF, 0x80 :: byte]"
  let ?ds = "[0xFF, 0xFF, 0xFF, 0xFF, 0xFF, 0xFF, 0xFF, 0xFF, 0xFF, 0xFF :: byte]"
  have g: "ifs_good (ifs_open bs)" for bs by (simp add: ifs_good_def ifs_open_def)
  have c: "content (ifs_open bs) = bs" for bs by (simp add: ifs_open_def)
  have h1: "\<forall>c \<in> set ?cs. bit c 7" by simp
  have h2: "\<forall>c \<in> set ?ds. bit c 7" by simp
  have p: "vbyte_pos_loop 0 0 (ifs_open (0x05 # ?ds)) = (Some (5, 0), ifs_open ?ds)"
    by code_simp
  have t1: "unparse (new_FileReader [0x61, 0x62 :: byte] Map.empty) FMT_VBYTE (ifs_open ?cs) 0 0 = Inl (Exit EXIT_INVALID_INPUT)"
    using vbyte_overflow_aborts [of "ifs_open ?cs" ?cs "[]" "new_FileReader [0x61, 0x62 :: byte] Map.empty" 0 0] g h1
    by (simp add: c)
  have t2: "unparse (new_FileReader [0x61, 0x62 :: byte] Map.empty) FMT_VBYTE (ifs_open (0x05 # ?ds)) 0 0 = Inl (Exit EXIT_INVALID_INPUT)"
    using vbyte_overflow_aborts [of "ifs_open (0x05 # ?ds)" ?ds "[]" "new_FileReader [0x61, 0x62 :: byte] Map.empty" 0 0 5 0 "ifs_open ?ds"]
      g h2 p
    by (simp add: c)
  from g p t1 t2 show ?thesis by simp
qed

section \<open>End of file inside a token\<close>

text \<open>
  In the two fixed-width formats and in vbyte a token cut short by the end of the file
  is read as the end sentinel.
\<close>

lemma next_token_32x2_short:
  "ifs_good infile \<Longrightarrow> length (content infile) < 8
     \<Longrightarrow> fst (next_token_32x2 infile) = end_sentinel"
  by (simp add: next_token_32x2_def ifs_read_def)

lemma next_token_64x2_short:
  "ifs_good infile \<Longrightarrow> length (content infile) < 16
     \<Longrightarrow> fst (next_token_64x2 infile) = end_sentinel"
  by (simp add: next_token_64x2_def ifs_read_def)

lemma vbyte_pos_loop_eof:
  "ifs_good infile \<Longrightarrow> content infile = [] \<Longrightarrow> sw < 64
     \<Longrightarrow> fst (vbyte_pos_loop sw pos infile) = None"
  by (simp add: vbyte_pos_loop.simps [of sw pos infile] ifs_get_def)

lemma vbyte_len_loop_eof:
  "ifs_good infile \<Longrightarrow> content infile = [] \<Longrightarrow> sw < 63
     \<Longrightarrow> fst (vbyte_len_loop sw len infile) = None"
  by (simp add: vbyte_len_loop.simps [of sw len infile] ifs_get_def)

text \<open>
  Claim C9 (the code departs from it). In the ascii format the end of the file is tested
  after the first number only. When the file ends in white space after a
  \<^verbatim>\<open>start_pos\<close> number, here the three bytes \<open>"12\n"\<close>, the second extraction
  leaves \<^verbatim>\<open>length_s\<close> empty and \<^verbatim>\<open>std::stol\<close> throws \<^verbatim>\<open>std::invalid_argument\<close>,
  which nothing catches: the program is terminated instead of reading the end
  sentinel. Without the white space (\<open>"12"\<close>) the sentinel is returned.
\<close>

theorem next_token_ascii_eof_before_length:
  "next_token FMT_ASCII (ifs_open [0x31, 0x32, 0x0A]) = Inl (Uncaught invalid_argument)
   \<and> unparse (new_FileReader [0x61, 0x62 :: byte] Map.empty) FMT_ASCII (ifs_open [0x31, 0x32, 0x0A]) 0 0
       = Inl (Uncaught invalid_argument)
   \<and> next_token FMT_ASCII (ifs_open [0x31, 0x32])
       = Inr (end_sentinel, \<lparr>content = [], eofbit = True, failbit = False\<rparr>)"
  by code_simp

section \<open>The binary searches\<close>

text \<open>
  \<^verbatim>\<open>search_left\<close> answers "not found" with \<open>-(left + 1)\<close>, which is negative whenever
  the search started at a non-negative bound.
\<close>

lemma search_left_loop_result:
  "search_left_loop D SA c offset old_left_bound left right = Inr r \<Longrightarrow> 0 \<le> left
     \<Longrightarrow> r < 0 \<or> (left \<le> r \<and> r \<le> right \<and> symbol_at D SA offset r = Some c)"
proof (induction D SA c offset old_left_bound left right rule: search_left_loop.induct)
  case (1 dict sa text_symbol offset old_left_bound left right)
  show ?case
  proof (cases "left \<le> right")
    case False
    with "1.prems" show ?thesis by (simp add: search_left_loop.simps [of _ _ _ _ _ left right])
  next
    case True
    define mid where "mid = midpoint left right"
    have mb: "left \<le> mid" "mid \<le> right" using midpoint_bounds [OF True] by (simp_all add: mid_def)
    note IH = "1.IH" [OF True mid_def]
    note eq = "1.prems"(1) [unfolded search_left_loop.simps [of _ _ _ _ _ left right], folded mid_def]
    let ?M = "symbol_at dict sa offset r = Some text_symbol"
    have up: "r < 0 \<or> (left \<le> r \<and> r \<le> right \<and> ?M)"
      if "r < 0 \<or> mid + 1 \<le> r \<and> r \<le> right \<and> ?M"
      using that mb by auto
    have down: "r < 0 \<or> (left \<le> r \<and> r \<le> right \<and> ?M)"
      if "r < 0 \<or> left \<le> r \<and> r \<le> mid - 1 \<and> ?M"
      using that mb by auto
    have here: "r < 0 \<or> (left \<le> r \<and> r \<le> right \<and> ?M)"
      if "r = mid" and "FileReader_at sa mid = Inr x"
        and "\<not> unsign (FileReader_size dict) \<le> uint (x + word_of_int offset)"
        and "FileReader_at dict (uint (x + word_of_int offset)) = Inr y"
        and "\<not> y < text_symbol" and "\<not> text_symbol < y" for x y
      using that mb by (auto simp: symbol_at_def)
    obtain sa_mid where s1: "FileReader_at sa mid = Inr sa_mid"
      using eq True by (cases "FileReader_at sa mid") (auto simp: Let_def)
    show ?thesis
    proof (cases "unsign (FileReader_size dict) \<le> uint (sa_mid + word_of_int offset)")
      case c1: True
      with eq True s1 have e: "search_left_loop dict sa text_symbol offset old_left_bound (mid + 1) right = Inr r"
        by (simp add: Let_def)
      from IH(1) [OF s1 c1 e] "1.prems"(2) mb up show ?thesis by auto
    next
      case c1: False
      obtain mid_symbol where s2: "FileReader_at dict (uint (sa_mid + word_of_int offset)) = Inr mid_symbol"
        using eq True s1 c1 by (cases "FileReader_at dict (uint (sa_mid + word_of_int offset))") (auto simp: Let_def)
      consider (lt) "mid_symbol < text_symbol" | (gt) "\<not> mid_symbol < text_symbol" "text_symbol < mid_symbol"
        | (eq) "\<not> mid_symbol < text_symbol" "\<not> text_symbol < mid_symbol" by blast
      then show ?thesis
      proof cases
        case lt
        with eq True s1 c1 s2 have e: "search_left_loop dict sa text_symbol offset old_left_bound (mid + 1) right = Inr r"
          by (simp add: Let_def)
        from IH(2) [OF s1 c1 s2 lt e] "1.prems"(2) mb up show ?thesis by auto
      next
        case gt
        with eq True s1 c1 s2 have e: "search_left_loop dict sa text_symbol offset old_left_bound left (mid - 1) = Inr r"
          by (simp add: Let_def)
        from IH(3) [OF s1 c1 s2 gt e "1.prems"(2)] down show ?thesis by auto
      next
        case eq': eq
        show ?thesis
        proof (cases "mid = old_left_bound")
          case True
          with eq \<open>left \<le> right\<close> s1 c1 s2 eq' have "r = mid" by (simp add: Let_def)
          from here [OF this s1 c1 s2 eq'] show ?thesis .
        next
          case nb: False
          obtain sa_prev where s3: "FileReader_at sa (mid - 1) = Inr sa_prev"
            using eq True s1 c1 s2 eq' nb by (cases "FileReader_at sa (mid - 1)") (auto simp: Let_def)
          show ?thesis
          proof (cases "unsign (FileReader_size dict) \<le> uint (sa_prev + word_of_int offset)")
            case True
            with eq \<open>left \<le> right\<close> s1 c1 s2 eq' nb s3 have "r = mid" by (simp add: Let_def)
            from here [OF this s1 c1 s2 eq'] show ?thesis .
          next
            case c2: False
            obtain mid_minus_one where s4: "FileReader_at dict (uint (sa_prev + word_of_int offset)) = Inr mid_minus_one"
              using eq True s1 c1 s2 eq' nb s3 c2
              by (cases "FileReader_at dict (uint (sa_prev + word_of_int offset))") (auto simp: Let_def)
            show ?thesis
            proof (cases "mid_minus_one = mid_symbol")
              case False
              with eq \<open>left \<le> right\<close> s1 c1 s2 eq' nb s3 c2 s4 have "r = mid" by (simp add: Let_def)
              from here [OF this s1 c1 s2 eq'] show ?thesis .
            next
              case True
              with eq \<open>left \<le> right\<close> s1 c1 s2 eq' nb s3 c2 s4
              have e: "search_left_loop dict sa text_symbol offset old_left_bound left (mid - 1) = Inr r"
                by (simp add: Let_def)
              from IH(4) [OF s1 c1 s2 eq' nb s3 c2 s4 True e "1.prems"(2)] down show ?thesis by auto
            qed
          qed
        qed
      qed
    qed
  qed
qed


lemma search_left_not_found_negative:
  assumes "search_left D SA c offset left_bound right_bound = Inr r" and "0 \<le> left_bound"
    and "\<forall>m. left_bound \<le> m \<and> m \<le> right_bound \<longrightarrow> symbol_at D SA offset m \<noteq> Some c"
  shows "r < 0"
  using search_left_loop_result [of D SA c offset left_bound left_bound right_bound r] assms
  by (auto simp: search_left_def)















text \<open>
  The caller's side. With the unsorted array \<open>[0, 1, 2, 3]\<close> for the dictionary
  \<open>"abac"\<close> and the symbol \<open>'b'\<close>, \<^verbatim>\<open>search_right\<close> fails with -1 after
  \<^verbatim>\<open>search_left\<close> has found index 1, and \<^verbatim>\<open>next_token\<close> stops with
  \<^verbatim>\<open>exit(EXIT_BUG)\<close>. On the dictionary \<open>"b"\<close> and the input \<open>"a"\<close>, \<^verbatim>\<open>search_left\<close>
  returns -1 and \<^verbatim>\<open>next_token\<close> returns the literal \<open>'a'\<close> without calling
  \<^verbatim>\<open>search_right\<close>.
\<close>

lemma search_right_unsorted_suffix_array:
  "search_right (new_FileReader [0x61, 0x62, 0x61, 0x63 :: byte] m)
     (new_FileReader [0, 1, 2, 3 :: u32] m') 0x62 0 1 3 = Inr (- 1)"
  "map_sum id fst (parser_next_token (new_Parser [0x62]
     (new_FileReader [0x61, 0x62, 0x61, 0x63 :: byte] m) (new_FileReader [0, 1, 2, 3 :: u32] m')))
     = Inl (Exit EXIT_BUG)"
  by code_simp+

lemma search_right_not_called_without_match:
  "search_left (new_FileReader [0x62 :: byte] m) (new_FileReader [0 :: u32] m') 0x61 0 0 0 = Inr (- 1)"
  "map_sum id fst (parser_next_token (new_Parser [0x61] (new_FileReader [0x62 :: byte] m)
     (new_FileReader [0 :: u32] m'))) = Inr \<lparr>start_pos = 0x61, length_tok = 0\<rparr>"
  by code_simp+

section \<open>The unparser\<close>

text \<open>Wrapping to 64 bits: nothing happens to a value in range, and inner wraps can be dropped.\<close>

lemma to_int64_id: "- (2 ^ 63) \<le> x \<Longrightarrow> x < 2 ^ 63 \<Longrightarrow> to_int64 x = x"
  by (simp add: to_int64_def sint_sbintrunc' signed_take_bit_int_eq_self)

lemma to_int64_add_left: "to_int64 (to_int64 x + y) = to_int64 (x + y)"
  by (simp add: to_int64_def)

lemma to_int64_diff_left: "to_int64 (to_int64 x - y) = to_int64 (x - y)"
  by (simp add: to_int64_def)

lemma to_int64_diff_right: "to_int64 (x - to_int64 y) = to_int64 (x - y)"
  by (simp add: to_int64_def)

lemma sint_range64: "- (2 ^ 63) \<le> sint (w :: u64) \<and> sint w < 2 ^ 63"
  using sint_ge [of w] sint_lt [of w] by simp

lemma write_loop_in_bounds:
  "0 \<le> x \<Longrightarrow> token_end \<le> FileReader_size D
     \<Longrightarrow> write_loop D x token_end = Inr (take (nat (token_end - x)) (drop (nat x) (data_array D)))"
proof (induction D x token_end rule: write_loop.induct)
  case (1 dict x token_end)
  show ?case
  proof (cases "x < token_end")
    case False
    then show ?thesis by (simp add: write_loop.simps [of dict x token_end])
  next
    case True
    with "1.prems" have r: "FileReader_at dict x = Inr (data_array dict ! nat x)"
      by (simp add: FileReader_at_def FileReader_size_def)
    have "write_loop dict (x + 1) token_end
            = Inr (take (nat (token_end - (x + 1))) (drop (nat (x + 1)) (data_array dict)))"
      using "1.IH" [OF True r] "1.prems" by simp
    moreover have "nat x < length (data_array dict)"
      using True "1.prems" by (simp add: FileReader_size_def)
    then have "drop (nat x) (data_array dict)
                 = data_array dict ! nat x # drop (nat (x + 1)) (data_array dict)"
      using "1.prems"(1) by (simp add: Cons_nth_drop_Suc nat_add_distrib)
    moreover have "nat (token_end - x) = Suc (nat (token_end - (x + 1)))" using True by simp
    ultimately show ?thesis
      using True r by (simp add: write_loop.simps [of dict x token_end])
  qed
qed

lemma sint_small: "(w :: u64) < 2 ^ 63 \<Longrightarrow> sint w = int (unat w)"
proof -
  assume "w < 2 ^ 63"
  then have "take_bit 63 w = w" by (simp add: less_mask_eq take_bit_eq_mask)
  then have "\<not> bit w 63" by (metis bit_take_bit_iff less_irrefl)
  then show ?thesis by (simp add: sint_nonneg_unat sint_nonneg_iff)
qed

lemma uint_below_sint: "uint (w :: u64) < 2 ^ 63 \<Longrightarrow> sint w = uint w"
proof -
  assume "uint w < 2 ^ 63"
  then have "w < 2 ^ 63" by (simp add: word_less_def)
  from sint_small [OF this] show ?thesis by simp
qed

text \<open>
  What \<^verbatim>\<open>write_next\<close> does with a copy token when the sums it makes stay in the range
  of \<^verbatim>\<open>long\<close>: it writes the dictionary from \<open>start_pos + start\<close> up to
  \<open>start_pos + stop\<close> or to the end of the dictionary, whichever comes first, and prints
  the warning when \<open>start_pos + stop\<close> is beyond the end.
\<close>

lemma write_next_in_range:
  fixes D :: "'a::len word FileReader"
  assumes "0 < sint (length_tok tok)" and "0 \<le> start"
    and "stop' = (if stop \<le> 0 then sint (length_tok tok) else stop)"
    and "uint (start_pos tok) + start < 2 ^ 63" and "uint (start_pos tok) + stop' < 2 ^ 63"
  shows "write_next D tok start stop
           = Inr (take (nat (min (uint (start_pos tok) + stop') (FileReader_size D)
                             - (uint (start_pos tok) + start)))
                    (drop (nat (uint (start_pos tok) + start)) (data_array D)),
                  if FileReader_size D < uint (start_pos tok) + stop' then [tok] else [],
                  sint (length_tok tok))"
proof -
  let ?pos = "uint (start_pos tok)" and ?len = "sint (length_tok tok)"
  have p: "0 < stop'" using assms(1,3) by (simp split: if_splits)
  then have "?pos < 2 ^ 63" using assms(5) by simp
  then have s: "sint (start_pos tok) = ?pos" by (rule uint_below_sint)
  have nn: "0 \<le> ?pos" by simp
  have e: "to_int64 (?pos + stop') = ?pos + stop'"
    using assms(5) p nn by (intro to_int64_id) linarith+
  have x: "to_int64 (?pos + start) = ?pos + start"
    using assms(2,4) nn by (intro to_int64_id) linarith+
  have l: "write_loop D (?pos + start) token_end
             = Inr (take (nat (token_end - (?pos + start)))
                      (drop (nat (?pos + start)) (data_array D)))"
    if "token_end \<le> FileReader_size D" for token_end
    using assms(2) that by (intro write_loop_in_bounds) simp_all
  show ?thesis
  proof (cases "FileReader_size D < ?pos + stop'")
    case True
    with assms(1) l [of "FileReader_size D"] show ?thesis
      by (simp add: write_next_def Let_def s e x assms(3) [symmetric])
  next
    case False
    with assms(1) l [of "?pos + stop'"] show ?thesis
      by (simp add: write_next_def Let_def s e x assms(3) [symmetric])
  qed
qed


text \<open>
  Claim C7 fails as stated: with a window, \<^verbatim>\<open>unparse\<close> asks \<^verbatim>\<open>write_next\<close> for the
  part of the token inside the window, and \<^verbatim>\<open>write_next\<close> compares the end of that
  part with the size of the dictionary. With the window \<open>(1, 1)\<close> the token \<open>(9, 5)\<close>
  over the 11 symbols of \<open>"abracadabra"\<close> has \<open>start_pos + length = 14 > 11\<close>, its
  first symbol is written and no warning is printed.
\<close>

theorem windowed_token_beyond_dictionary_counterexample:
  "rlzunparse [9, 0, 0, 0, 5, 0, 0, 0]
     (new_FileReader [0x61, 0x62, 0x72, 0x61, 0x63, 0x61, 0x64, 0x61, 0x62, 0x72, 0x61 :: byte]
        Map.empty) FMT_32X2 1 1
     = Inr (\<lparr>outfile = [0x72], warnings = [], toks_read = 1, syms_written = 5,
             output_pos = 5\<rparr>, 0x100000005)
   \<and> FileReader_size
         (new_FileReader [0x61, 0x62, 0x72, 0x61, 0x63, 0x61, 0x64, 0x61, 0x62, 0x72, 0x61 :: byte]
            Map.empty)
       < uint (9 :: u64) + sint (5 :: u64)"
  by code_simp

text \<open>
  Claim C7, amended. Without a window (\<open>I = J = 0\<close>), a copy token whose
  \<open>start_pos + length\<close> exceeds \<open>|D|\<close> and is below \<open>2^63\<close> makes \<^verbatim>\<open>write_next\<close>
  write exactly \<open>D[start_pos .. |D|)\<close> and print one warning, and the loop of
  \<^verbatim>\<open>unparse\<close> goes on with the next token.
\<close>

theorem write_next_truncates:
  fixes D :: "'a::len word FileReader"
  assumes "0 < sint (length_tok tok)"
    and "uint (start_pos tok) + sint (length_tok tok) < 2 ^ 63"
    and "FileReader_size D < uint (start_pos tok) + sint (length_tok tok)"
  shows "write_next D tok 0 0
           = Inr (drop (unat (start_pos tok)) (data_array D), [tok], sint (length_tok tok))
         \<and> (keep_going infile \<and> next_token mode infile = Inr (tok, infile')
              \<and> \<not> is_end_sentinel tok
            \<longrightarrow> unparse_loop D mode 0 0 infile ow
                = unparse_loop D mode 0 0 infile'
                    (ow\<lparr>toks_read := toks_read ow + 1,
                        outfile := outfile ow @ drop (unat (start_pos tok)) (data_array D),
                        warnings := warnings ow @ [tok],
                        syms_written := to_int64 (syms_written ow + sint (length_tok tok))\<rparr>))"
proof -
  let ?pos = "uint (start_pos tok)" and ?len = "sint (length_tok tok)"
  have "write_next D tok 0 0
          = Inr (take (nat (min (?pos + ?len) (FileReader_size D) - (?pos + 0)))
                   (drop (nat (?pos + 0)) (data_array D)),
                 if FileReader_size D < ?pos + ?len then [tok] else [], ?len)"
    by (rule write_next_in_range) (use assms in simp_all)
  then have "write_next D tok 0 0
          = Inr (take (nat (FileReader_size D - ?pos)) (drop (nat ?pos) (data_array D)),
                 [tok], ?len)"
    using assms(3) by (simp add: min_def)
  moreover have "length (drop (nat ?pos) (data_array D)) \<le> nat (FileReader_size D - ?pos)"
    by (simp add: FileReader_size_def nat_diff_distrib')
  ultimately have w: "write_next D tok 0 0 = Inr (drop (unat (start_pos tok)) (data_array D), [tok], ?len)"
    by simp
  then show ?thesis
    by (auto simp: unparse_loop.simps [of D mode 0 0 infile ow] Let_def)
qed

theorem write_next_truncates_witness:
  "0 < sint (5 :: u64)
   \<and> uint (9 :: u64) + sint (5 :: u64) < 2 ^ 63
   \<and> FileReader_size
         (new_FileReader [0x61, 0x62, 0x72, 0x61, 0x63, 0x61, 0x64, 0x61, 0x62, 0x72, 0x61 :: byte]
            Map.empty)
       < uint (9 :: u64) + sint (5 :: u64)
   \<and> write_next
         (new_FileReader [0x61, 0x62, 0x72, 0x61, 0x63, 0x61, 0x64, 0x61, 0x62, 0x72, 0x61 :: byte]
            Map.empty)
         \<lparr>start_pos = 9, length_tok = 5\<rparr> 0 0
       = Inr ([0x72, 0x61], [\<lparr>start_pos = 9, length_tok = 5\<rparr>], 5)
   \<and> keep_going (ifs_open [9, 0, 0, 0, 5, 0, 0, 0])
   \<and> next_token FMT_32X2 (ifs_open [9, 0, 0, 0, 5, 0, 0, 0])
       = Inr (\<lparr>start_pos = 9, length_tok = 5\<rparr>, ifs_open [])
   \<and> \<not> is_end_sentinel \<lparr>start_pos = 9, length_tok = 5\<rparr>
   \<and> unparse_loop
         (new_FileReader [0x61, 0x62, 0x72, 0x61, 0x63, 0x61, 0x64, 0x61, 0x62, 0x72, 0x61 :: byte]
            Map.empty)
         FMT_32X2 0 0 (ifs_open [9, 0, 0, 0, 5, 0, 0, 0]) new_OutputWriter
       = Inr \<lparr>outfile = [0x72, 0x61], warnings = [\<lparr>start_pos = 9, length_tok = 5\<rparr>],
              toks_read = 1, syms_written = 5, output_pos = 0\<rparr>"
proof -
  let ?D = "new_FileReader [0x61, 0x62, 0x72, 0x61, 0x63, 0x61, 0x64, 0x61, 0x62, 0x72, 0x61 :: byte]
              Map.empty"
  let ?tok = "\<lparr>start_pos = 9, length_tok = 5\<rparr>"
  let ?in = "ifs_open [9, 0, 0, 0, 5, 0, 0, 0]"
  have h: "0 < sint (length_tok ?tok)"
    "uint (start_pos ?tok) + sint (length_tok ?tok) < 2 ^ 63"
    "FileReader_size ?D < uint (start_pos ?tok) + sint (length_tok ?tok)"
    by (simp_all add: FileReader_size_def new_FileReader_def)
  have k: "keep_going ?in" by code_simp
  have n: "next_token FMT_32X2 ?in = Inr (?tok, ifs_open [])" by code_simp
  have s: "\<not> is_end_sentinel ?tok" by code_simp
  have d: "data_array ?D = [0x61, 0x62, 0x72, 0x61, 0x63, 0x61, 0x64, 0x61, 0x62, 0x72, 0x61]"
    by (simp add: new_FileReader_def)
  have r: "unparse_loop ?D FMT_32X2 0 0 (ifs_open []) ow = Inr ow" for ow
    by (subst unparse_loop.simps)
       (simp add: keep_going_def
          ifs_open_def next_token_def next_token_32x2_def ifs_read_def ifs_good_def Let_def
          FMT_32X2_def FMT_64X2_def FMT_ASCII_def FMT_VBYTE_def)
  have t: "to_int64 5 = 5" by (simp add: to_int64_def)
  from write_next_truncates [OF h, of ?in FMT_32X2 "ifs_open []" new_OutputWriter] h k n s
  show ?thesis by (simp add: d r t new_OutputWriter_def)
qed

text \<open>
  Claim C8 (the code departs from it). \<^verbatim>\<open>write_next\<close> returns \<^verbatim>\<open>token.length\<close> for a
  copy token, whatever part of it the window let through, and \<^verbatim>\<open>unparse\<close> adds
  that to \<^verbatim>\<open>syms_written\<close>. For the tokens \<open>(0, 5), (3, 2)\<close> over \<open>"abracadabra"\<close>
  and the window \<open>(3, 5)\<close> three symbols (\<open>"rac"\<close>) are written, two tokens are read, and
  the value returned is \<open>(2 << 32) | 5\<close>: five symbols are reported.
\<close>

theorem unparse_counts_whole_tokens:
  "rlzunparse [0, 0, 0, 0, 5, 0, 0, 0, 3, 0, 0, 0, 2, 0, 0, 0]
     (new_FileReader [0x61, 0x62, 0x72, 0x61, 0x63, 0x61, 0x64, 0x61, 0x62, 0x72, 0x61 :: byte]
        memory) FMT_32X2 3 5
     = Inr (\<lparr>outfile = [0x72, 0x61, 0x63], warnings = [], toks_read = 2, syms_written = 5,
             output_pos = 5\<rparr>, 0x200000005)"
  by code_simp

text \<open>
  A copy token inside the dictionary: \<^verbatim>\<open>write_next\<close> writes the part of its payload it is
  asked for.
\<close>

lemma write_next_copy:
  fixes D :: "'a::len word FileReader"
  assumes "0 < sint (length_tok tok)" and "0 \<le> sint (start_pos tok)"
    and "0 \<le> start" and "start \<le> stop" and "0 < stop" and "stop \<le> sint (length_tok tok)"
    and "sint (start_pos tok) + sint (length_tok tok) \<le> FileReader_size D"
    and "FileReader_size D < 2 ^ 63"
  shows "write_next D tok start stop
           = Inr (drop (nat start) (take (nat stop) (payload (data_array D) tok)), [],
                  sint (length_tok tok))"
proof -
  let ?pos = "sint (start_pos tok)" and ?len = "sint (length_tok tok)"
  have u: "uint (start_pos tok) = ?pos"
    using assms(2) by (simp add: sint_nonneg_unat)
  have "write_next D tok start stop
          = Inr (take (nat (min (uint (start_pos tok) + stop) (FileReader_size D)
                            - (uint (start_pos tok) + start)))
                   (drop (nat (uint (start_pos tok) + start)) (data_array D)),
                 if FileReader_size D < uint (start_pos tok) + stop then [tok] else [], ?len)"
  proof (rule write_next_in_range)
    show "stop = (if stop \<le> 0 then ?len else stop)" using assms(5) by simp
    show "uint (start_pos tok) + stop < 2 ^ 63" using assms u by linarith
    show "uint (start_pos tok) + start < 2 ^ 63" using assms u by linarith
  qed (use assms in simp_all)
  then have w: "write_next D tok start stop
          = Inr (take (nat (?pos + stop - (?pos + start))) (drop (nat (?pos + start)) (data_array D)),
                 [], ?len)"
    using assms u by (simp add: min_def)
  have "take (nat (?pos + stop - (?pos + start))) (drop (nat (?pos + start)) (data_array D))
          = drop (nat start) (take (nat stop) (payload (data_array D) tok))"
  proof -
    have "take (nat stop) (payload (data_array D) tok)
            = take (nat stop) (drop (nat ?pos) (data_array D))"
      using assms by (simp add: payload_def min_def)
    moreover have "drop (nat start) (take (nat stop) (drop (nat ?pos) (data_array D)))
                     = take (nat stop - nat start) (drop (nat start + nat ?pos) (data_array D))"
      by (simp add: drop_take)
    moreover have "nat stop - nat start = nat (?pos + stop - (?pos + start))"
      using assms by simp
    moreover have "nat start + nat ?pos = nat (?pos + start)"
      using assms by simp
    ultimately show ?thesis by simp
  qed
  with w show ?thesis by simp
qed

text \<open>
  The window logic, token by token. A token whose payload lies in the dictionary and
  which follows \<open>out_pos\<close> symbols of output covers the output positions
  \<open>out_pos + 1 .. out_pos + L\<close>; for a window \<open>1 \<le> I \<le> J\<close> what is written for it
  is exactly the part of its payload at the positions \<open>I .. J\<close>, without a warning
  (all positions and the size of the dictionary in the range of \<^verbatim>\<open>long long\<close>).
\<close>

lemma window_emit_slice:
  fixes D :: "'a::len word FileReader"
  assumes "token_in_dictionary (data_array D) tok" and "FileReader_size D < 2 ^ 63"
    and "0 \<le> out_pos" and "1 \<le> I" and "I \<le> J" and "J < 2 ^ 63"
    and "out_pos + (if sint (length_tok tok) = 0 then 1 else sint (length_tok tok)) < 2 ^ 63"
  shows "window_emit D tok I J out_pos
           = Inr (drop (nat (I - 1 - out_pos))
                    (take (nat (J - out_pos)) (payload (data_array D) tok)), [])"
proof -
  let ?pos = "sint (start_pos tok)" and ?len = "sint (length_tok tok)"
  let ?efl = "if ?len = 0 then 1 else ?len"
  have efl: "0 < ?efl" using assms(1) by (auto simp: token_in_dictionary_def)
  have l: "- (2 ^ 63) \<le> ?len" "?len < 2 ^ 63" using sint_range64 [of "length_tok tok"] by simp_all
  have tsp: "to_int64 (out_pos + 1) = out_pos + 1"
    using assms(3,7) efl by (intro to_int64_id) (simp_all split: if_splits)
  have tep: "to_int64 (out_pos + ?efl) = out_pos + ?efl"
    using assms(3,7) efl by (intro to_int64_id) (simp_all split: if_splits)
  have st: "to_int64 (I - (out_pos + 1)) = I - (out_pos + 1)"
    using assms(3-7) efl by (intro to_int64_id) (simp_all split: if_splits)
  have sp: "to_int64 (to_int64 (?len + J) - (out_pos + ?len)) = J - out_pos"
  proof -
    have "to_int64 (to_int64 (?len + J) - (out_pos + ?len)) = to_int64 (J - out_pos)"
      by (simp add: to_int64_diff_left)
    also have "\<dots> = J - out_pos"
      using assms(3-7) efl by (intro to_int64_id) (simp_all split: if_splits)
    finally show ?thesis .
  qed
  show ?thesis
  proof (cases "?len = 0")
    case True
    then have p: "payload (data_array D) tok = [ucast (start_pos tok)]" by (simp add: payload_def)
    from True assms tsp tep show ?thesis
      by (auto simp: window_emit_def window_case_def Let_def p write_next_def)
  next
    case False
    from False assms(1) have len: "0 < ?len" and pos: "0 \<le> ?pos"
      and fit: "?pos + ?len \<le> FileReader_size D"
      by (auto simp: token_in_dictionary_def FileReader_size_def)
    have "nat ?len \<le> length (data_array D) - nat ?pos"
      using len pos fit by (simp add: FileReader_size_def)
    then have L: "length (payload (data_array D) tok) = nat ?len"
      using len by (simp add: payload_def)
    have wn: "write_next D tok start stop
                = Inr (drop (nat start) (take (nat stop) (payload (data_array D) tok)), [], ?len)"
      if "0 \<le> start" "start \<le> stop" "0 < stop" "stop \<le> ?len" for start stop
      by (rule write_next_copy [OF len pos that fit assms(2)])
    have wn0: "write_next D tok 0 0 = Inr (payload (data_array D) tok, [], ?len)"
    proof -
      have "write_next D tok 0 0 = write_next D tok 0 ?len"
        using len by (simp add: write_next_def Let_def)
      also have "\<dots> = Inr (drop (nat 0) (take (nat ?len) (payload (data_array D) tok)), [], ?len)"
        using len by (intro wn) simp_all
      finally show ?thesis using L by simp
    qed
    from False tsp tep st sp have
      tsp': "to_int64 (out_pos + 1) = out_pos + 1" and
      tep': "to_int64 (out_pos + ?len) = out_pos + ?len" by simp_all
    have wc: "window_case tok I J out_pos =
                (if J < out_pos + 1 \<or> out_pos + ?len < I
                 then (if J < out_pos + 1 then Break else Skip)
                 else if I \<le> out_pos + 1 \<and> out_pos + ?len \<le> J then Emit 0 0
                 else if out_pos + 1 \<le> I \<and> out_pos + ?len \<le> J
                   then Emit (I - (out_pos + 1)) ?len
                 else if I \<le> out_pos + 1 \<and> J \<le> out_pos + ?len then Emit 0 (J - out_pos)
                 else Emit (I - (out_pos + 1)) (J - out_pos))"
      using assms(4,5) False by (simp add: window_case_def Let_def tsp' tep' st sp)
    consider (after) "J < out_pos + 1"
      | (before) "out_pos + 1 \<le> J" "out_pos + ?len < I"
      | (inside) "I \<le> out_pos + 1" "out_pos + ?len \<le> J"
      | (start) "out_pos + 1 < I" "I \<le> out_pos + ?len" "out_pos + ?len \<le> J"
      | (stop) "I \<le> out_pos + 1" "out_pos + 1 \<le> J" "J < out_pos + ?len"
      | (both) "out_pos + 1 < I" "J < out_pos + ?len"
      using assms len by linarith
    then show ?thesis
    proof cases
      case after
      with assms len False show ?thesis
        by (simp add: window_emit_def wc)
    next
      case before
      with assms len False L show ?thesis
        by (simp add: window_emit_def wc)
    next
      case inside
      with assms len False L wn0 show ?thesis
        by (simp add: window_emit_def wc)
    next
      case start
      with assms len False L wn [of "I - (out_pos + 1)" ?len] show ?thesis
        by (simp add: window_emit_def wc algebra_simps)
    next
      case stop
      with assms len False L wn [of 0 "J - out_pos"] show ?thesis
        by (simp add: window_emit_def wc algebra_simps)
    next
      case both
      with assms len False L wn [of "I - (out_pos + 1)" "J - out_pos"] show ?thesis
        by (simp add: window_emit_def wc algebra_simps)
    qed
  qed
qed

section \<open>The parser\<close>

text \<open>
  The scenarios of the specification, run on the model: \<open>"abrac"\<close> against
  \<open>"abracadabra"\<close> is the one token \<open>(0, 5)\<close>; \<open>"abd"\<close> against \<open>"abc"\<close> is \<open>(0, 2)\<close> and
  the literal \<open>'d'\<close>, sixteen bytes in 32x2; \<open>"z"\<close> against \<open>"xy"\<close> is the literal \<open>'z'\<close>.
\<close>

lemma parser_scenarios:
  "rlzparse [0x61, 0x62, 0x72, 0x61, 0x63]
     (new_FileReader [0x61, 0x62, 0x72, 0x61, 0x63, 0x61, 0x64, 0x61, 0x62, 0x72, 0x61 :: byte] m)
     (new_FileReader [10, 7, 0, 3, 5, 8, 1, 4, 6, 9, 2 :: u32] m') FMT_32X2
     = Some (Inr [0, 0, 0, 0, 5, 0, 0, 0])"
  "rlzparse [0x61, 0x62, 0x64] (new_FileReader [0x61, 0x62, 0x63 :: byte] m)
     (new_FileReader [0, 1, 2 :: u32] m') FMT_32X2
     = Some (Inr [0, 0, 0, 0, 2, 0, 0, 0, 0x64, 0, 0, 0, 0, 0, 0, 0])"
  "rlzparse [0x7A] (new_FileReader [0x78, 0x79 :: byte] m) (new_FileReader [0, 1 :: u32] m') FMT_32X2
     = Some (Inr [0x7A, 0, 0, 0, 0, 0, 0, 0])"
  by code_simp+

text \<open>
  The dictionary \<open>"ab"\<close> with its suffix array \<open>[0, 1]\<close>, and an input that begins with
  \<open>"ab"\<close> and goes on. After the match of \<open>"ab"\<close> one suffix is left and the inner loop of
  \<^verbatim>\<open>next_token\<close> reads \<open>dict[2]\<close>. What follows depends on the memory after the
  dictionary.
\<close>

lemmas parser_eval =
  parser_next_token_def new_Parser_def new_FileReader_def getnext_def unget_def end_of_input_def
  next_token_loop.simps fast_path_loop.simps search_left_def search_right_def
  search_left_loop.simps search_right_loop.simps FileReader_at_def FileReader_size_def
  midpoint_def unsign_def to_int32_def to_int64_def to_long_long_def Let_def

lemma next_token_past_dictionary:
  "map_sum id fst
     (parser_next_token (new_Parser [0x61, 0x62, 0x61] (new_FileReader [0x61, 0x62 :: byte] m)
        (new_FileReader [0, 1 :: u32] m')))
     = (case m 2 of
          None \<Rightarrow> Inl (Out_of_bounds_read 2)
        | Some v \<Rightarrow> Inr (if v = 0x61 then \<lparr>start_pos = 0, length_tok = 3\<rparr>
                        else \<lparr>start_pos = 0, length_tok = 2\<rparr>))"
  by (cases "m 2") (simp_all add: parser_eval)

text \<open>
  When that memory holds the symbol the input goes on with, the match goes on: the
  token is \<open>(0, 3)\<close>, one symbol longer than the dictionary, and the input is used up.
\<close>

lemma next_token_beyond_dictionary:
  "parser_next_token (new_Parser [0x61, 0x62, v] (new_FileReader [0x61, 0x62 :: byte] (m(2 \<mapsto> v)))
       (new_FileReader [0, 1 :: u32] m'))
     = Inr (\<lparr>start_pos = 0, length_tok = 3\<rparr>,
            \<lparr>dict = new_FileReader [0x61, 0x62 :: byte] (m(2 \<mapsto> v)),
             sa = new_FileReader [0, 1 :: u32] m', unget_buffer = 0, has_unget = False,
             source_file = [], source_eof = True, source_file_size_symbols = 3,
             read_counter = 4\<rparr>)"
  by (simp add: parser_eval)

lemma next_token_after_input:
  "parser_next_token
       \<lparr>dict = D, sa = SA, unget_buffer = 0, has_unget = False,
        source_file = [], source_eof = True, source_file_size_symbols = 3, read_counter = 4\<rparr>
     = Inr (end_sentinel,
            \<lparr>dict = D, sa = SA, unget_buffer = 0, has_unget = False,
             source_file = [], source_eof = True, source_file_size_symbols = 3,
             read_counter = 5\<rparr>)"
  by (simp add: parser_next_token_def getnext_def end_of_input_def next_token_loop.simps)

lemma output_token_0_3:
  "output_token \<lparr>start_pos = 0, length_tok = 3\<rparr> FMT_32X2 = Inr ([0, 0, 0, 0, 3, 0, 0, 0], 3)"
  "output_token \<lparr>start_pos = 0, length_tok = 3\<rparr> FMT_64X2
     = Inr ([0, 0, 0, 0, 0, 0, 0, 0, 3, 0, 0, 0, 0, 0, 0, 0], 3)"
  "output_token \<lparr>start_pos = 0, length_tok = 3\<rparr> FMT_ASCII = Inr ([0x30, 0x20, 0x33, 0x0A], 3)"
  "output_token \<lparr>start_pos = 0, length_tok = 3\<rparr> FMT_VBYTE = Inr ([0, 3], 3)"
  by code_simp+

lemma output_token_end_sentinel: "output_token end_sentinel format = Inr ([], 0)"
  by (simp add: output_token_def)

lemma rlzparse_beyond_dictionary:
  "output_token \<lparr>start_pos = 0, length_tok = 3\<rparr> format = Inr (bytes, 3)
     \<Longrightarrow> rlzparse [0x61, 0x62, v] (new_FileReader [0x61, 0x62 :: byte] (m(2 \<mapsto> v)))
           (new_FileReader [0, 1 :: u32] m') format
         = Some (Inr bytes)"
  by (simp add: rlzparse_def work.simps [of "new_Parser _ _ _"] next_token_beyond_dictionary
        work.simps [of "\<lparr>dict = _, sa = _, unget_buffer = _, has_unget = _, source_file = _,
                        source_eof = _, source_file_size_symbols = _, read_counter = _\<rparr>"]
        next_token_after_input output_token_end_sentinel)


text \<open>
  When the memory after the dictionary holds another symbol than the next one of the
  input, the match ends where the dictionary ends: \<open>"aba"\<close> is compressed to the tokens
  \<open>(0, 2), (0, 1)\<close> and decompressed to \<open>"aba"\<close>.
\<close>

lemma rlzparse_aba:
  assumes "w \<noteq> 0x61"
  shows "rlzparse [0x61, 0x62, 0x61] (new_FileReader [0x61, 0x62 :: byte] (m(2 \<mapsto> w)))
           (new_FileReader [0, 1 :: u32] m') FMT_32X2
         = Some (Inr [0, 0, 0, 0, 2, 0, 0, 0, 0, 0, 0, 0, 1, 0, 0, 0])"
proof -
  let ?D = "new_FileReader [0x61, 0x62 :: byte] (m(2 \<mapsto> w))"
  let ?SA = "new_FileReader [0, 1 :: u32] m'"
  let ?p1 = "\<lparr>dict = ?D, sa = ?SA, unget_buffer = 0x61, has_unget = True,
              source_file = [], source_eof = False, source_file_size_symbols = 3,
              read_counter = 2\<rparr>"
  let ?p2 = "\<lparr>dict = ?D, sa = ?SA, unget_buffer = 0x61, has_unget = False,
              source_file = [], source_eof = True, source_file_size_symbols = 3,
              read_counter = 4\<rparr>"
  let ?p3 = "\<lparr>dict = ?D, sa = ?SA, unget_buffer = 0x61, has_unget = False,
              source_file = [], source_eof = True, source_file_size_symbols = 3,
              read_counter = 5\<rparr>"
  have 1: "parser_next_token (new_Parser [0x61, 0x62, 0x61] ?D ?SA)
             = Inr (\<lparr>start_pos = 0, length_tok = 2\<rparr>, ?p1)"
    using assms by (simp add: parser_eval)
  have 2: "parser_next_token ?p1 = Inr (\<lparr>start_pos = 0, length_tok = 1\<rparr>, ?p2)"
    by (simp add: parser_eval)
  have 3: "parser_next_token ?p2 = Inr (end_sentinel, ?p3)"
    by (simp add: parser_eval)
  have o: "output_token \<lparr>start_pos = 0, length_tok = 2\<rparr> FMT_32X2 = Inr ([0, 0, 0, 0, 2, 0, 0, 0], 2)"
    "output_token \<lparr>start_pos = 0, length_tok = 1\<rparr> FMT_32X2 = Inr ([0, 0, 0, 0, 1, 0, 0, 0], 1)"
    by code_simp+
  show ?thesis
    by (simp add: rlzparse_def work.simps [of "new_Parser _ _ _"] 1 work.simps [of ?p1] 2
          work.simps [of ?p2] 3 o output_token_end_sentinel)
qed

lemma roundtrip_aba:
  assumes "w \<noteq> 0x61"
  shows "parse_unparse [0x61, 0x62, 0x61] (new_FileReader [0x61, 0x62 :: byte] (m(2 \<mapsto> w)))
           (new_FileReader [0, 1 :: u32] m') (new_FileReader [0x61, 0x62] m'') FMT_32X2 0 0
         = Some (Inr (\<lparr>outfile = [0x61, 0x62, 0x61], warnings = [], toks_read = 2,
                        syms_written = 3, output_pos = 0\<rparr>, 0x200000003))"
proof -
  have "rlzunparse [0, 0, 0, 0, 2, 0, 0, 0, 0, 0, 0, 0, 1, 0, 0, 0]
          (new_FileReader [0x61, 0x62 :: byte] m'') FMT_32X2 0 0
        = Inr (\<lparr>outfile = [0x61, 0x62, 0x61], warnings = [], toks_read = 2,
                syms_written = 3, output_pos = 0\<rparr>, 0x200000003)"
    by code_simp
  then show ?thesis by (simp add: parse_unparse_def rlzparse_aba [OF assms])
qed

text \<open>
  Claim C3 (the code departs from it). Once a single suffix is left, the inner loop of
  \<^verbatim>\<open>next_token\<close> reads \<open>dict[token_start_pos + offset]\<close> without comparing the index
  with the size of the dictionary, as both binary searches do. With the dictionary
  \<open>"ab"\<close>, its suffix array \<open>[0, 1]\<close> and the input \<open>"aba"\<close>, the match of \<open>"ab"\<close> reaches
  the end of the dictionary while input is left, and the loop reads \<open>dict[2]\<close>, one
  past the last symbol. Where no memory can be read there the run ends at that read;
  otherwise the token depends on what the memory holds: with \<open>'a'\<close> there it is
  \<open>(0, 3)\<close>, and \<open>start_pos + length\<close> is beyond the size of the dictionary.
\<close>

theorem fast_path_reads_past_dictionary:
  "valid_suffix_array [0x61, 0x62 :: byte] [0, 1 :: u32]
   \<and> FileReader_size (new_FileReader [0x61, 0x62 :: byte] m) = 2
   \<and> parser_next_token (new_Parser [0x61, 0x62, 0x61]
         (new_FileReader [0x61, 0x62 :: byte] Map.empty) (new_FileReader [0, 1 :: u32] m'))
       = Inl (Out_of_bounds_read 2)
   \<and> map_sum id fst
         (parser_next_token (new_Parser [0x61, 0x62, 0x61] (new_FileReader [0x61, 0x62 :: byte] m)
            (new_FileReader [0, 1 :: u32] m')))
       = (case m 2 of
            None \<Rightarrow> Inl (Out_of_bounds_read 2)
          | Some v \<Rightarrow> Inr (if v = 0x61 then \<lparr>start_pos = 0, length_tok = 3\<rparr>
                          else \<lparr>start_pos = 0, length_tok = 2\<rparr>))"
proof -
  have "valid_suffix_array [0x61, 0x62 :: byte] [0, 1 :: u32]" by code_simp
  moreover have "FileReader_size (new_FileReader [0x61, 0x62 :: byte] m) = 2"
    by (simp add: FileReader_size_def new_FileReader_def)
  moreover have "parser_next_token (new_Parser [0x61, 0x62, 0x61]
         (new_FileReader [0x61, 0x62 :: byte] Map.empty) (new_FileReader [0, 1 :: u32] m'))
       = Inl (Out_of_bounds_read 2)"
    by (simp add: parser_eval)
  ultimately show ?thesis by (simp only: next_token_past_dictionary simp_thms)
qed

text \<open>
  Claim C1 (the code departs from it). Whatever symbol \<open>v\<close> the memory holds after the
  dictionary \<open>"ab"\<close>, the input \<open>"ab"\<close> followed by \<open>v\<close> is compressed to the one token
  \<open>(0, 3)\<close> in each of the four formats: the third symbol is matched against memory
  that is not the dictionary's. Decompression truncates the token to the dictionary,
  with a warning, and writes \<open>"ab"\<close>: the last symbol of the input is lost.
\<close>

theorem roundtrip_fails_past_dictionary_end:
  "valid_suffix_array [0x61, 0x62 :: byte] [0, 1 :: u32]
   \<and> parse_unparse [0x61, 0x62, v] (new_FileReader [0x61, 0x62 :: byte] (m(2 \<mapsto> v)))
         (new_FileReader [0, 1 :: u32] m') (new_FileReader [0x61, 0x62] m'') FMT_32X2 0 0
       = Some (Inr (\<lparr>outfile = [0x61, 0x62], warnings = [\<lparr>start_pos = 0, length_tok = 3\<rparr>],
                      toks_read = 1, syms_written = 3, output_pos = 0\<rparr>, 0x100000003))
   \<and> parse_unparse [0x61, 0x62, v] (new_FileReader [0x61, 0x62 :: byte] (m(2 \<mapsto> v)))
         (new_FileReader [0, 1 :: u32] m') (new_FileReader [0x61, 0x62] m'') FMT_64X2 0 0
       = Some (Inr (\<lparr>outfile = [0x61, 0x62], warnings = [\<lparr>start_pos = 0, length_tok = 3\<rparr>],
                      toks_read = 1, syms_written = 3, output_pos = 0\<rparr>, 0x100000003))
   \<and> parse_unparse [0x61, 0x62, v] (new_FileReader [0x61, 0x62 :: byte] (m(2 \<mapsto> v)))
         (new_FileReader [0, 1 :: u32] m') (new_FileReader [0x61, 0x62] m'') FMT_ASCII 0 0
       = Some (Inr (\<lparr>outfile = [0x61, 0x62], warnings = [\<lparr>start_pos = 0, length_tok = 3\<rparr>],
                      toks_read = 1, syms_written = 3, output_pos = 0\<rparr>, 0x100000003))
   \<and> parse_unparse [0x61, 0x62, v] (new_FileReader [0x61, 0x62 :: byte] (m(2 \<mapsto> v)))
         (new_FileReader [0, 1 :: u32] m') (new_FileReader [0x61, 0x62] m'') FMT_VBYTE 0 0
       = Some (Inr (\<lparr>outfile = [0x61, 0x62], warnings = [\<lparr>start_pos = 0, length_tok = 3\<rparr>],
                      toks_read = 1, syms_written = 3, output_pos = 0\<rparr>, 0x100000003))"
proof -
  let ?D = "new_FileReader [0x61, 0x62 :: byte] m''"
  let ?r = "Inr (\<lparr>outfile = [0x61, 0x62 :: byte],
                  warnings = [\<lparr>start_pos = 0, length_tok = 3\<rparr>],
                  toks_read = 1, syms_written = 3, output_pos = 0\<rparr>, 0x100000003 :: u64)"
  have "valid_suffix_array [0x61, 0x62 :: byte] [0, 1 :: u32]" by code_simp
  moreover have "rlzunparse [0, 0, 0, 0, 3, 0, 0, 0] ?D FMT_32X2 0 0 = ?r" by code_simp
  moreover have "rlzunparse [0, 0, 0, 0, 0, 0, 0, 0, 3, 0, 0, 0, 0, 0, 0, 0] ?D FMT_64X2 0 0 = ?r"
    by code_simp
  moreover have "rlzunparse [0x30, 0x20, 0x33, 0x0A] ?D FMT_ASCII 0 0 = ?r" by code_simp
  moreover have "rlzunparse [0, 3] ?D FMT_VBYTE 0 0 = ?r" by code_simp
  ultimately show ?thesis
    by (simp add: parse_unparse_def rlzparse_beyond_dictionary [OF output_token_0_3(1)]
          rlzparse_beyond_dictionary [OF output_token_0_3(2)]
          rlzparse_beyond_dictionary [OF output_token_0_3(3)]
          rlzparse_beyond_dictionary [OF output_token_0_3(4)])
qed

text \<open>
  Claim C2 (the code departs from it). The window logic of \<^verbatim>\<open>unparse\<close> gives \<open>"rac"\<close>
  for the tokens \<open>(0, 5), (3, 2)\<close> over \<open>"abracadabra"\<close> and the window \<open>(3, 5)\<close>, as the
  claim says. But the token stream the compressor makes of \<open>"ab"\<close> followed by the
  symbol \<open>v\<close> that the memory holds after the dictionary \<open>"ab"\<close> is the one token
  \<open>(0, 3)\<close>: the window \<open>(1, 3)\<close> of it is \<open>"ab"\<close> and not the three symbols of the
  input, and the window \<open>(3, 3)\<close> is empty and not the symbol \<open>v\<close>.
\<close>

theorem windowed_roundtrip_fails_past_dictionary_end:
  "outfile (fst (projr (rlzunparse [0, 0, 0, 0, 5, 0, 0, 0, 3, 0, 0, 0, 2, 0, 0, 0]
       (new_FileReader [0x61, 0x62, 0x72, 0x61, 0x63, 0x61, 0x64, 0x61, 0x62, 0x72, 0x61 :: byte]
          m'') FMT_32X2 3 5)))
     = [0x72, 0x61, 0x63]
   \<and> valid_suffix_array [0x61, 0x62 :: byte] [0, 1 :: u32]
   \<and> parse_unparse [0x61, 0x62, v] (new_FileReader [0x61, 0x62 :: byte] (m(2 \<mapsto> v)))
         (new_FileReader [0, 1 :: u32] m') (new_FileReader [0x61, 0x62] m'') FMT_32X2 1 3
       = Some (Inr (\<lparr>outfile = [0x61, 0x62], warnings = [\<lparr>start_pos = 0, length_tok = 3\<rparr>],
                      toks_read = 1, syms_written = 3, output_pos = 3\<rparr>, 0x100000003))
   \<and> parse_unparse [0x61, 0x62, v] (new_FileReader [0x61, 0x62 :: byte] (m(2 \<mapsto> v)))
         (new_FileReader [0, 1 :: u32] m') (new_FileReader [0x61, 0x62] m'') FMT_32X2 3 3
       = Some (Inr (\<lparr>outfile = [], warnings = [\<lparr>start_pos = 0, length_tok = 3\<rparr>],
                      toks_read = 1, syms_written = 3, output_pos = 3\<rparr>, 0x100000003))"
proof -
  let ?D = "new_FileReader [0x61, 0x62 :: byte] m''"
  have "rlzunparse [0, 0, 0, 0, 5, 0, 0, 0, 3, 0, 0, 0, 2, 0, 0, 0]
       (new_FileReader [0x61, 0x62, 0x72, 0x61, 0x63, 0x61, 0x64, 0x61, 0x62, 0x72, 0x61 :: byte]
          m'') FMT_32X2 3 5
     = Inr (\<lparr>outfile = [0x72, 0x61, 0x63], warnings = [], toks_read = 2, syms_written = 5,
             output_pos = 5\<rparr>, 0x200000005)"
    by code_simp
  moreover have "valid_suffix_array [0x61, 0x62 :: byte] [0, 1 :: u32]" by code_simp
  moreover have "rlzunparse [0, 0, 0, 0, 3, 0, 0, 0] ?D FMT_32X2 1 3
     = Inr (\<lparr>outfile = [0x61, 0x62], warnings = [\<lparr>start_pos = 0, length_tok = 3\<rparr>],
             toks_read = 1, syms_written = 3, output_pos = 3\<rparr>, 0x100000003)"
    by code_simp
  moreover have "rlzunparse [0, 0, 0, 0, 3, 0, 0, 0] ?D FMT_32X2 3 3
     = Inr (\<lparr>outfile = [], warnings = [\<lparr>start_pos = 0, length_tok = 3\<rparr>],
             toks_read = 1, syms_written = 3, output_pos = 3\<rparr>, 0x100000003)"
    by code_simp
  ultimately show ?thesis
    by (simp add: parse_unparse_def rlzparse_beyond_dictionary [OF output_token_0_3(1)])
qed

end
